theory Spec2Isabelle
  imports Main
begin

section \<open>Data model\<close>

text \<open>
  The engine of \<^verbatim>\<open>chess_game.py\<close>: class \<^verbatim>\<open>Piece\<close> (a colour and a kind, both
  strings in the source) and class \<^verbatim>\<open>Board\<close> (an 8 by 8 list of lists of optional
  pieces plus the side to move). Rows and columns are Python integers, so they are
  \<open>int\<close> here: offsets such as \<open>r - 2\<close> are computed before they are tested.
\<close>

datatype color = White | Black

datatype kind = King | Queen | Rook | Bishop | Knight | Pawn

datatype piece = Piece (color: color) (kind: kind)

type_synonym square = "int \<times> int"

type_synonym move = "square \<times> square"

record board =
  grid :: "piece option list list"
  to_move :: color

text \<open>
  What a call can do instead of returning a value. \<open>IndexError\<close> is Python's exception
  for an index at or beyond the length of a list (or below its negation). For an index
  \<open>i\<close> with \<open>- length \<le> i < 0\<close> Python does not raise: it silently reads from the
  other end of the list. The model reports that as \<open>NegativeIndex\<close>, so that a result
  \<open>Inr\<close> certifies that every index used was in \<open>[0, length)\<close>. \<open>Diverges\<close> stands for
  a \<^verbatim>\<open>while\<close> loop that never ends (a ray scan with the zero direction standing on an
  empty square).
\<close>

datatype fault = IndexError | NegativeIndex | Diverges

definition fbind :: "fault + 'a \<Rightarrow> ('a \<Rightarrow> fault + 'b) \<Rightarrow> fault + 'b" where
  "fbind m f = (case m of Inl e \<Rightarrow> Inl e | Inr x \<Rightarrow> f x)"

definition ROWS :: int where
  "ROWS = 8"

definition COLS :: int where
  "COLS = 8"

text \<open>\<^verbatim>\<open>xs[i]\<close>\<close>

definition index :: "'a list \<Rightarrow> int \<Rightarrow> fault + 'a" where
  "index xs i =
     (if 0 \<le> i \<and> i < int (length xs) then Inr (xs ! nat i)
      else if i < 0 \<and> - int (length xs) \<le> i then Inl NegativeIndex
      else Inl IndexError)"

text \<open>\<^verbatim>\<open>self.grid[r][c]\<close>\<close>

definition cell :: "board \<Rightarrow> int \<Rightarrow> int \<Rightarrow> fault + piece option" where
  "cell b r c = fbind (index (grid b) r) (\<lambda>row. index row c)"

text \<open>\<^verbatim>\<open>self.grid[r][c] = v\<close>: the row is read, then written at \<open>c\<close>.\<close>

definition set_cell :: "board \<Rightarrow> int \<Rightarrow> int \<Rightarrow> piece option \<Rightarrow> fault + board" where
  "set_cell b r c v =
     fbind (index (grid b) r) (\<lambda>row.
       if 0 \<le> c \<and> c < int (length row)
       then Inr (b\<lparr>grid := (grid b)[nat r := row[nat c := v]]\<rparr>)
       else if c < 0 \<and> - int (length row) \<le> c then Inl NegativeIndex
       else Inl IndexError)"

text \<open>\<^verbatim>\<open>Board.inside\<close>\<close>

definition inside :: "int \<Rightarrow> int \<Rightarrow> bool" where
  "inside r c \<longleftrightarrow> 0 \<le> r \<and> r < ROWS \<and> 0 \<le> c \<and> c < COLS"

text \<open>The shape every \<^verbatim>\<open>Board\<close> has: \<^verbatim>\<open>__init__\<close> builds 8 rows of 8 cells and no
  method changes the shape.\<close>

definition wf_board :: "board \<Rightarrow> bool" where
  "wf_board b \<longleftrightarrow> int (length (grid b)) = ROWS \<and> (\<forall>row \<in> set (grid b). int (length row) = COLS)"

text \<open>The three tests the source makes on a cell:
  \<^verbatim>\<open>p and p.color == col and p.kind == k\<close>,
  \<^verbatim>\<open>t and t.color != col\<close> and
  \<^verbatim>\<open>t is None or t.color != col\<close>.\<close>

definition is_piece :: "piece option \<Rightarrow> color \<Rightarrow> kind \<Rightarrow> bool" where
  "is_piece p col k = (case p of None \<Rightarrow> False | Some q \<Rightarrow> color q = col \<and> kind q = k)"

definition enemy :: "piece option \<Rightarrow> color \<Rightarrow> bool" where
  "enemy t col = (case t of None \<Rightarrow> False | Some q \<Rightarrow> color q \<noteq> col)"

definition empty_or_enemy :: "piece option \<Rightarrow> color \<Rightarrow> bool" where
  "empty_or_enemy t col = (case t of None \<Rightarrow> True | Some q \<Rightarrow> color q \<noteq> col)"

text \<open>\<^verbatim>\<open>WHITE if color == BLACK else BLACK\<close>\<close>

definition opponent :: "color \<Rightarrow> color" where
  "opponent col = (if col = Black then White else Black)"

section \<open>Loops\<close>

text \<open>\<^verbatim>\<open>for x in xs: moves.extend(f(x))\<close>, and \<^verbatim>\<open>for x in xs: if f(x): return True\<close>
  followed by the rest of the function.\<close>

fun collect :: "('a \<Rightarrow> fault + 'b list) \<Rightarrow> 'a list \<Rightarrow> fault + 'b list" where
  "collect f [] = Inr []"
| "collect f (x # xs) = fbind (f x) (\<lambda>ms. fbind (collect f xs) (\<lambda>rest. Inr (ms @ rest)))"

fun first_hit :: "('a \<Rightarrow> fault + bool) \<Rightarrow> 'a list \<Rightarrow> fault + bool" where
  "first_hit f [] = Inr False"
| "first_hit f (x # xs) = fbind (f x) (\<lambda>hit. if hit then Inr True else first_hit f xs)"

definition or_else :: "fault + bool \<Rightarrow> fault + bool \<Rightarrow> fault + bool" where
  "or_else m n = fbind m (\<lambda>hit. if hit then Inr True else n)"

text \<open>\<^verbatim>\<open>for r in range(ROWS): for c in range(COLS)\<close>, row-major.\<close>

definition squares :: "square list" where
  "squares = [(r, c). r \<leftarrow> [0..ROWS - 1], c \<leftarrow> [0..COLS - 1]]"

section \<open>Setup and copy\<close>

definition back_rank :: "kind list" where
  "back_rank = [Rook, Knight, Bishop, Queen, King, Bishop, Knight, Rook]"

text \<open>One loop of \<^verbatim>\<open>Board._setup\<close>: the back rank of a colour and its pawns.\<close>

fun place_ranks :: "board \<Rightarrow> int \<Rightarrow> int \<Rightarrow> color \<Rightarrow> (int \<times> kind) list \<Rightarrow> fault + board" where
  "place_ranks b br pr col [] = Inr b"
| "place_ranks b br pr col ((c, k) # rest) =
     fbind (set_cell b br c (Some (Piece col k))) (\<lambda>b1.
     fbind (set_cell b1 pr c (Some (Piece col Pawn))) (\<lambda>b2.
     place_ranks b2 br pr col rest))"

definition setup_board :: "board \<Rightarrow> fault + board" where
  "setup_board b =
     fbind (place_ranks b 0 1 Black (zip [0..int (length back_rank) - 1] back_rank)) (\<lambda>b1.
     place_ranks b1 7 6 White (zip [0..int (length back_rank) - 1] back_rank))"

text \<open>\<^verbatim>\<open>Board.__init__\<close>\<close>

definition new_board :: "fault + board" where
  "new_board =
     setup_board \<lparr>grid = replicate (nat ROWS) (replicate (nat COLS) None), to_move = White\<rparr>"

text \<open>\<^verbatim>\<open>Board.copy\<close>\<close>

definition copy :: "board \<Rightarrow> board" where
  "copy b =
     \<lparr>grid = map (map (\<lambda>p. case p of None \<Rightarrow> None | Some q \<Rightarrow> Some (Piece (color q) (kind q))))
               (grid b),
      to_move = to_move b\<rparr>"

section \<open>King position and attacks\<close>

fun king_scan :: "board \<Rightarrow> color \<Rightarrow> square list \<Rightarrow> fault + square option" where
  "king_scan b col [] = Inr None"
| "king_scan b col ((r, c) # rest) =
     fbind (cell b r c) (\<lambda>p.
       if is_piece p col King then Inr (Some (r, c)) else king_scan b col rest)"

text \<open>\<^verbatim>\<open>Board.king_position\<close>\<close>

definition king_position :: "board \<Rightarrow> color \<Rightarrow> fault + square option" where
  "king_position b col = king_scan b col squares"

text \<open>The guarded look at one square that the knight, pawn and king loops of
  \<^verbatim>\<open>is_square_attacked\<close> share.\<close>

definition probe :: "board \<Rightarrow> color \<Rightarrow> kind \<Rightarrow> int \<Rightarrow> int \<Rightarrow> fault + bool" where
  "probe b by k rr cc =
     (if inside rr cc then fbind (cell b rr cc) (\<lambda>p. Inr (is_piece p by k)) else Inr False)"

definition knight_deltas :: "(int \<times> int) list" where
  "knight_deltas = [(-2, -1), (-2, 1), (-1, -2), (-1, 2), (1, -2), (1, 2), (2, -1), (2, 1)]"

text \<open>\<^verbatim>\<open>for dr in (-1, 0, 1): for dc in (-1, 0, 1): if dr == 0 and dc == 0: continue\<close>\<close>

definition king_deltas :: "(int \<times> int) list" where
  "king_deltas = [(dr, dc). dr \<leftarrow> [-1, 0, 1], dc \<leftarrow> [-1, 0, 1], \<not> (dr = 0 \<and> dc = 0)]"

definition straight_deltas :: "(int \<times> int) list" where
  "straight_deltas = [(-1, 0), (1, 0), (0, -1), (0, 1)]"

definition diagonal_deltas :: "(int \<times> int) list" where
  "diagonal_deltas = [(-1, -1), (-1, 1), (1, -1), (1, 1)]"

definition knight_attack :: "board \<Rightarrow> int \<Rightarrow> int \<Rightarrow> color \<Rightarrow> fault + bool" where
  "knight_attack b r c by =
     first_hit (\<lambda>(dr, dc). probe b by Knight (r + dr) (c + dc)) knight_deltas"

definition pawn_attack :: "board \<Rightarrow> int \<Rightarrow> int \<Rightarrow> color \<Rightarrow> fault + bool" where
  "pawn_attack b r c by =
     (let dir = (if by = White then -1 else 1)
      in first_hit (\<lambda>dc. probe b by Pawn (r + dir) (c + dc)) [-1, 1])"

definition king_attack :: "board \<Rightarrow> int \<Rightarrow> int \<Rightarrow> color \<Rightarrow> fault + bool" where
  "king_attack b r c by =
     first_hit (\<lambda>(dr, dc). probe b by King (r + dr) (c + dc)) king_deltas"

text \<open>The \<^verbatim>\<open>while self.inside(rr, cc)\<close> loop of a sliding scan, from \<open>(rr, cc)\<close> in
  direction \<open>(dr, dc)\<close>: \<open>True\<close> is the \<^verbatim>\<open>return True\<close> of the source, \<open>False\<close> its
  \<^verbatim>\<open>break\<close> or the end of the loop. \<open>k\<close> is \<open>Rook\<close> for the straight scan and \<open>Bishop\<close>
  for the diagonal one.\<close>

function ray_attack :: "board \<Rightarrow> color \<Rightarrow> kind \<Rightarrow> int \<Rightarrow> int \<Rightarrow> int \<Rightarrow> int \<Rightarrow> fault + bool" where
  "ray_attack b by k dr dc rr cc =
     (if inside rr cc then
        (case cell b rr cc of
           Inl e \<Rightarrow> Inl e
         | Inr p \<Rightarrow>
             (case p of
                Some q \<Rightarrow> Inr (color q = by \<and> (kind q = k \<or> kind q = Queen))
              | None \<Rightarrow>
                  if dr = 0 \<and> dc = 0 then Inl Diverges
                  else ray_attack b by k dr dc (rr + dr) (cc + dc)))
      else Inr False)"
  by pat_completeness auto
termination
  by (relation "measure (\<lambda>(b, by, k, dr, dc, rr, cc).
        nat (if 0 < dr then ROWS - rr else if dr < 0 then rr + 1
             else if 0 < dc then COLS - cc else cc + 1))")
     (auto simp: inside_def ROWS_def COLS_def)

definition straight_attack :: "board \<Rightarrow> int \<Rightarrow> int \<Rightarrow> color \<Rightarrow> fault + bool" where
  "straight_attack b r c by =
     first_hit (\<lambda>(dr, dc). ray_attack b by Rook dr dc (r + dr) (c + dc)) straight_deltas"

definition diagonal_attack :: "board \<Rightarrow> int \<Rightarrow> int \<Rightarrow> color \<Rightarrow> fault + bool" where
  "diagonal_attack b r c by =
     first_hit (\<lambda>(dr, dc). ray_attack b by Bishop dr dc (r + dr) (c + dc)) diagonal_deltas"

text \<open>\<^verbatim>\<open>Board.is_square_attacked\<close>: the five scans in the order of the source, each
  returning at its first hit.\<close>

definition is_square_attacked :: "board \<Rightarrow> int \<Rightarrow> int \<Rightarrow> color \<Rightarrow> fault + bool" where
  "is_square_attacked b r c by =
     or_else (knight_attack b r c by)
    (or_else (pawn_attack b r c by)
    (or_else (king_attack b r c by)
    (or_else (straight_attack b r c by)
             (diagonal_attack b r c by))))"

text \<open>\<^verbatim>\<open>Board.is_in_check\<close>\<close>

definition is_in_check :: "board \<Rightarrow> color \<Rightarrow> fault + bool" where
  "is_in_check b col =
     fbind (king_position b col) (\<lambda>kpos.
       case kpos of
         None \<Rightarrow> Inr False
       | Some (kr, kc) \<Rightarrow> is_square_attacked b kr kc (opponent col))"

section \<open>Pseudo-legal moves\<close>

text \<open>\<^verbatim>\<open>Board._pawn_moves\<close>. The double step reads \<^verbatim>\<open>self.grid[nr2][c]\<close> with no
  call of \<^verbatim>\<open>inside\<close>; the \<^verbatim>\<open>and\<close> of the source reads it only when
  \<^verbatim>\<open>r == start_row\<close>.\<close>

definition pawn_moves :: "board \<Rightarrow> int \<Rightarrow> int \<Rightarrow> color \<Rightarrow> fault + move list" where
  "pawn_moves b r c col =
     (let dir = (if col = White then -1 else 1);
          start_row = (if col = White then 6 else 1);
          nr = r + dir
      in fbind
           (if inside nr c then
              fbind (cell b nr c) (\<lambda>t.
                if t = None then
                  (let nr2 = r + 2 * dir
                   in if r = start_row then
                        fbind (cell b nr2 c) (\<lambda>t2.
                          Inr (if t2 = None then [((r, c), (nr, c)), ((r, c), (nr2, c))]
                               else [((r, c), (nr, c))]))
                      else Inr [((r, c), (nr, c))])
                else Inr [])
            else Inr [])
           (\<lambda>fwd.
              fbind
                (collect
                   (\<lambda>dc. let nc = c + dc
                         in if inside nr nc then
                              fbind (cell b nr nc) (\<lambda>target.
                                Inr (if enemy target col then [((r, c), (nr, nc))] else []))
                            else Inr [])
                   [-1, 1])
                (\<lambda>caps. Inr (fwd @ caps))))"

text \<open>\<^verbatim>\<open>Board._knight_moves\<close>\<close>

definition knight_moves :: "board \<Rightarrow> int \<Rightarrow> int \<Rightarrow> color \<Rightarrow> fault + move list" where
  "knight_moves b r c col =
     collect
       (\<lambda>(dr, dc). let nr = r + dr; nc = c + dc
                   in if inside nr nc then
                        fbind (cell b nr nc) (\<lambda>t.
                          Inr (if empty_or_enemy t col then [((r, c), (nr, nc))] else []))
                      else Inr [])
       knight_deltas"

text \<open>The \<^verbatim>\<open>while self.inside(nr, nc)\<close> loop of \<^verbatim>\<open>Board._ray_moves\<close> for one
  direction, from \<open>(nr, nc)\<close> on.\<close>

function ray :: "board \<Rightarrow> int \<Rightarrow> int \<Rightarrow> color \<Rightarrow> int \<Rightarrow> int \<Rightarrow> int \<Rightarrow> int \<Rightarrow> fault + move list" where
  "ray b r c col dr dc nr nc =
     (if inside nr nc then
        (case cell b nr nc of
           Inl e \<Rightarrow> Inl e
         | Inr t \<Rightarrow>
             (case t of
                None \<Rightarrow>
                  if dr = 0 \<and> dc = 0 then Inl Diverges
                  else (case ray b r c col dr dc (nr + dr) (nc + dc) of
                          Inl e \<Rightarrow> Inl e
                        | Inr ms \<Rightarrow> Inr (((r, c), (nr, nc)) # ms))
              | Some q \<Rightarrow> Inr (if color q \<noteq> col then [((r, c), (nr, nc))] else [])))
      else Inr [])"
  by pat_completeness auto
termination
  by (relation "measure (\<lambda>(b, r, c, col, dr, dc, nr, nc).
        nat (if 0 < dr then ROWS - nr else if dr < 0 then nr + 1
             else if 0 < dc then COLS - nc else nc + 1))")
     (auto simp: inside_def ROWS_def COLS_def)

text \<open>\<^verbatim>\<open>Board._ray_moves\<close>\<close>

definition ray_moves :: "board \<Rightarrow> int \<Rightarrow> int \<Rightarrow> color \<Rightarrow> (int \<times> int) list \<Rightarrow> fault + move list" where
  "ray_moves b r c col deltas =
     collect (\<lambda>(dr, dc). ray b r c col dr dc (r + dr) (c + dc)) deltas"

definition bishop_moves :: "board \<Rightarrow> int \<Rightarrow> int \<Rightarrow> color \<Rightarrow> fault + move list" where
  "bishop_moves b r c col = ray_moves b r c col [(-1, -1), (-1, 1), (1, -1), (1, 1)]"

definition rook_moves :: "board \<Rightarrow> int \<Rightarrow> int \<Rightarrow> color \<Rightarrow> fault + move list" where
  "rook_moves b r c col = ray_moves b r c col [(-1, 0), (1, 0), (0, -1), (0, 1)]"

definition queen_moves :: "board \<Rightarrow> int \<Rightarrow> int \<Rightarrow> color \<Rightarrow> fault + move list" where
  "queen_moves b r c col =
     ray_moves b r c col
       [(-1, -1), (-1, 1), (1, -1), (1, 1), (-1, 0), (1, 0), (0, -1), (0, 1)]"

text \<open>\<^verbatim>\<open>Board._king_moves\<close>\<close>

definition king_moves :: "board \<Rightarrow> int \<Rightarrow> int \<Rightarrow> color \<Rightarrow> fault + move list" where
  "king_moves b r c col =
     collect
       (\<lambda>(dr, dc). let nr = r + dr; nc = c + dc
                   in if inside nr nc then
                        fbind (cell b nr nc) (\<lambda>t.
                          if empty_or_enemy t col then
                            fbind (is_square_attacked b nr nc (opponent col)) (\<lambda>att.
                              Inr (if \<not> att then [((r, c), (nr, nc))] else []))
                          else Inr [])
                      else Inr [])
       king_deltas"

text \<open>The body of the loop of \<^verbatim>\<open>Board.generate_pseudo_legal_moves\<close> for one square.\<close>

definition moves_from :: "board \<Rightarrow> color \<Rightarrow> square \<Rightarrow> fault + move list" where
  "moves_from b col sq =
     (case sq of (r, c) \<Rightarrow>
        fbind (cell b r c) (\<lambda>p.
          case p of
            None \<Rightarrow> Inr []
          | Some q \<Rightarrow>
              if color q \<noteq> col then Inr []
              else (case kind q of
                      Pawn \<Rightarrow> pawn_moves b r c col
                    | Knight \<Rightarrow> knight_moves b r c col
                    | Bishop \<Rightarrow> bishop_moves b r c col
                    | Rook \<Rightarrow> rook_moves b r c col
                    | Queen \<Rightarrow> queen_moves b r c col
                    | King \<Rightarrow> king_moves b r c col)))"

text \<open>\<^verbatim>\<open>Board.generate_pseudo_legal_moves\<close>\<close>

definition generate_pseudo_legal_moves :: "board \<Rightarrow> color \<Rightarrow> fault + move list" where
  "generate_pseudo_legal_moves b col = collect (moves_from b col) squares"

section \<open>Applying moves and the legality filter\<close>

text \<open>\<^verbatim>\<open>Board._make_move_no_checks\<close>\<close>

definition make_move_no_checks :: "board \<Rightarrow> square \<Rightarrow> square \<Rightarrow> fault + board" where
  "make_move_no_checks b src dst =
     (case src of (sr, sc) \<Rightarrow> case dst of (dr, dc) \<Rightarrow>
        fbind (cell b sr sc) (\<lambda>p.
        fbind (set_cell b dr dc p) (\<lambda>b1.
        set_cell b1 sr sc None)))"

text \<open>The promotion step that \<^verbatim>\<open>generate_legal_moves\<close> and \<^verbatim>\<open>ChessGame._make_move\<close>
  both run after the move: \<open>piece\<close> is what stood on the source square before it.\<close>

definition promote :: "board \<Rightarrow> piece option \<Rightarrow> square \<Rightarrow> fault + board" where
  "promote b2 piece dst =
     (case piece of
        None \<Rightarrow> Inr b2
      | Some q \<Rightarrow>
          if kind q = Pawn then
            (case dst of (dr, dc) \<Rightarrow>
               if (color q = White \<and> dr = 0) \<or> (color q = Black \<and> dr = 7)
               then set_cell b2 dr dc (Some (Piece (color q) Queen))
               else Inr b2)
          else Inr b2)"

text \<open>The hypothetical successor that \<^verbatim>\<open>generate_legal_moves\<close> builds for one
  candidate: copy, move, then read the moved piece from the original and promote.\<close>

definition simulate :: "board \<Rightarrow> square \<Rightarrow> square \<Rightarrow> fault + board" where
  "simulate b src dst =
     fbind (make_move_no_checks (copy b) src dst) (\<lambda>b2.
     fbind (cell b (fst src) (snd src)) (\<lambda>piece.
     promote b2 piece dst))"

text \<open>\<^verbatim>\<open>Board.generate_legal_moves\<close>\<close>

definition generate_legal_moves :: "board \<Rightarrow> color \<Rightarrow> fault + move list" where
  "generate_legal_moves b col =
     fbind (generate_pseudo_legal_moves b col) (\<lambda>ps.
       collect
         (\<lambda>(src, dst).
            fbind (simulate b src dst) (\<lambda>b2.
            fbind (is_in_check b2 col) (\<lambda>chk.
              Inr (if \<not> chk then [(src, dst)] else []))))
         ps)"

text \<open>\<^verbatim>\<open>ChessGame._make_move\<close>, on the board of the game.\<close>

definition make_move :: "board \<Rightarrow> square \<Rightarrow> square \<Rightarrow> fault + board" where
  "make_move b src dst =
     fbind (cell b (fst src) (snd src)) (\<lambda>piece.
     fbind (make_move_no_checks b src dst) (\<lambda>b1.
     fbind (promote b1 piece dst) (\<lambda>b2.
     Inr (b2\<lparr>to_move := (if to_move b2 = White then Black else White)\<rparr>))))"

section \<open>Auxiliary notions for the statements\<close>

text \<open>The cell of a well-formed board at an in-bounds square, and the board with one
  cell replaced: what \<open>cell\<close> and \<open>set_cell\<close> return there.\<close>

definition piece_at :: "board \<Rightarrow> int \<Rightarrow> int \<Rightarrow> piece option" where
  "piece_at b r c = grid b ! nat r ! nat c"

definition put :: "board \<Rightarrow> int \<Rightarrow> int \<Rightarrow> piece option \<Rightarrow> board" where
  "put b r c v = b\<lparr>grid := (grid b)[nat r := (grid b ! nat r)[nat c := v]]\<rparr>"

text \<open>The cell of a board that a fallible call returned.\<close>

definition look :: "fault + board \<Rightarrow> int \<Rightarrow> int \<Rightarrow> fault + piece option" where
  "look m r c = fbind m (\<lambda>b. cell b r c)"

text \<open>The board that \<open>new_board\<close> returns, written out.\<close>

definition start_board :: board where
  "start_board =
     \<lparr>grid =
        [map (\<lambda>k. Some (Piece Black k)) back_rank,
         replicate 8 (Some (Piece Black Pawn)),
         replicate 8 None,
         replicate 8 None,
         replicate 8 None,
         replicate 8 None,
         replicate 8 (Some (Piece White Pawn)),
         map (\<lambda>k. Some (Piece White k)) back_rank],
      to_move = White\<rparr>"

text \<open>The \<open>n\<close> squares of a ray that starts at \<open>(r, c)\<close> and runs in direction
  \<open>(dr, dc)\<close> are on the board and empty.\<close>

definition clear_run :: "board \<Rightarrow> int \<Rightarrow> int \<Rightarrow> int \<Rightarrow> int \<Rightarrow> nat \<Rightarrow> bool" where
  "clear_run b r c dr dc n \<longleftrightarrow>
     (\<forall>j<n. inside (r + int j * dr) (c + int j * dc) \<and>
            piece_at b (r + int j * dr) (c + int j * dc) = None)"

text \<open>Square \<open>n\<close> of the ray from \<open>(r, c)\<close> is a destination for \<open>col\<close>: the squares before
  it are empty, and it is on the board and empty or held by the other colour.\<close>

definition target :: "board \<Rightarrow> color \<Rightarrow> int \<Rightarrow> int \<Rightarrow> int \<Rightarrow> int \<Rightarrow> nat \<Rightarrow> bool" where
  "target b col r c dr dc n \<longleftrightarrow>
     clear_run b r c dr dc n \<and> inside (r + int n * dr) (c + int n * dc) \<and>
     empty_or_enemy (piece_at b (r + int n * dr) (c + int n * dc)) col"

text \<open>The board after \<open>make_move_no_checks\<close>, and the successor that the legality filter
  tests as the specification words it (section 4.3): the move applied unchecked, with a
  queen of the mover's colour on the destination when the moved piece is a pawn that
  reaches the opponent's back rank (row 0 for White, row 7 for Black).\<close>

definition relocate :: "board \<Rightarrow> square \<Rightarrow> square \<Rightarrow> board" where
  "relocate b src dst =
     put (put b (fst dst) (snd dst) (piece_at b (fst src) (snd src))) (fst src) (snd src) None"

definition spec_clone :: "board \<Rightarrow> color \<Rightarrow> square \<Rightarrow> square \<Rightarrow> board" where
  "spec_clone b col src dst =
     (if map_option kind (piece_at b (fst src) (snd src)) = Some Pawn \<and>
         fst dst = (if col = White then 0 else 7)
      then put (relocate b src dst) (fst dst) (snd dst) (Some (Piece col Queen))
      else relocate b src dst)"

text \<open>No square of the board holds a king of the colour.\<close>

definition no_king :: "board \<Rightarrow> color \<Rightarrow> bool" where
  "no_king b col \<longleftrightarrow> (\<forall>(r, c) \<in> set squares. cell b r c \<noteq> Inr (Some (Piece col King)))"

text \<open>Boards for the concrete instances below.\<close>

definition empty_board :: board where
  "empty_board = \<lparr>grid = replicate 8 (replicate 8 None), to_move = White\<rparr>"

definition knight_only_board :: board where
  "knight_only_board = put empty_board 7 1 (Some (Piece White Knight))"

definition promotion_board :: board where
  "promotion_board =
     put (put (put empty_board 1 0 (Some (Piece White Pawn)))
            7 4 (Some (Piece White King)))
       0 7 (Some (Piece Black King))"

text \<open>A white king in the corner next to a black knight that a black rook guards.\<close>

definition guarded_knight_board :: board where
  "guarded_knight_board =
     put (put (put empty_board 0 0 (Some (Piece White King)))
            1 1 (Some (Piece Black Knight)))
       1 7 (Some (Piece Black Rook))"

text \<open>A white rook with a white pawn two squares to its right and a black pawn two
  squares above it.\<close>

definition rays_board :: board where
  "rays_board =
     put (put (put empty_board 4 4 (Some (Piece White Rook)))
            4 6 (Some (Piece White Pawn)))
       2 4 (Some (Piece Black Pawn))"

text \<open>Looking from \<open>(r, c)\<close> in direction \<open>(dr, dc)\<close>, the first piece stands \<open>n + 1\<close> steps
  away and is a piece of colour \<open>by\<close> and of kind \<open>k\<close> or a queen.\<close>

definition sees :: "board \<Rightarrow> color \<Rightarrow> kind \<Rightarrow> int \<Rightarrow> int \<Rightarrow> int \<Rightarrow> int \<Rightarrow> nat \<Rightarrow> bool" where
  "sees b by k r c dr dc n \<longleftrightarrow>
     clear_run b (r + dr) (c + dc) dr dc n \<and>
     inside (r + int (Suc n) * dr) (c + int (Suc n) * dc) \<and>
     (\<exists>q. piece_at b (r + int (Suc n) * dr) (c + int (Suc n) * dc) = Some q \<and>
          color q = by \<and> (kind q = k \<or> kind q = Queen))"

text \<open>The directions that the source passes to \<^verbatim>\<open>_ray_moves\<close> for a sliding kind.\<close>

definition slide_deltas :: "kind \<Rightarrow> (int \<times> int) list" where
  "slide_deltas k =
     (if k = Bishop then diagonal_deltas
      else if k = Rook then straight_deltas
      else if k = Queen then diagonal_deltas @ straight_deltas
      else [])"

text \<open>A white king two rows below a black pawn, one file to the pawn's right.\<close>

definition king_pawn_board :: board where
  "king_pawn_board =
     put (put empty_board 4 4 (Some (Piece White King))) 2 3 (Some (Piece Black Pawn))"

text \<open>A white pawn that can capture the black king standing on its forward diagonal.\<close>

definition pawn_check_board :: board where
  "pawn_check_board =
     put (put empty_board 5 3 (Some (Piece White Pawn))) 4 2 (Some (Piece Black King))"

section \<open>Basic facts\<close>

declare ray_attack.simps [simp del] ray.simps [simp del]

lemma fbind_Inr [simp]: "fbind (Inr x) f = f x"
  by (simp add: fbind_def)

lemma fbind_Inl [simp]: "fbind (Inl e) f = Inl e"
  by (simp add: fbind_def)

lemma fbind_eq_Inr: "fbind m f = Inr y \<longleftrightarrow> (\<exists>x. m = Inr x \<and> f x = Inr y)"
  by (cases m) simp_all

lemma or_else_Inr [simp]: "or_else (Inr h) n = (if h then Inr True else n)"
  by (simp add: or_else_def)

lemma inside_iff: "inside r c \<longleftrightarrow> 0 \<le> r \<and> r < 8 \<and> 0 \<le> c \<and> c < 8"
  by (simp add: inside_def ROWS_def COLS_def)

lemma wf_board_iff:
  "wf_board b \<longleftrightarrow> length (grid b) = 8 \<and> (\<forall>i < 8. length (grid b ! i) = 8)"
  by (auto simp: wf_board_def ROWS_def COLS_def all_set_conv_all_nth)

lemma wf_len: "wf_board b \<Longrightarrow> length (grid b) = 8"
  by (simp add: wf_board_def ROWS_def)

lemma wf_row_len: "wf_board b \<Longrightarrow> 0 \<le> r \<Longrightarrow> r < 8 \<Longrightarrow> length (grid b ! nat r) = 8"
  by (simp add: wf_board_def ROWS_def COLS_def)

lemma cell_inside: "wf_board b \<Longrightarrow> inside r c \<Longrightarrow> cell b r c = Inr (piece_at b r c)"
  by (simp add: cell_def index_def piece_at_def wf_len wf_row_len inside_iff)

lemma cell_outside: "wf_board b \<Longrightarrow> \<not> inside r c \<Longrightarrow> \<exists>e. cell b r c = Inl e"
  by (auto simp: cell_def index_def wf_len wf_row_len inside_iff)

lemma cell_eq_Inr: "wf_board b \<Longrightarrow> cell b r c = Inr v \<longleftrightarrow> inside r c \<and> piece_at b r c = v"
  using cell_inside [of b r c] cell_outside [of b r c] by (cases "inside r c") auto

lemma set_cell_inside: "wf_board b \<Longrightarrow> inside r c \<Longrightarrow> set_cell b r c v = Inr (put b r c v)"
  by (simp add: set_cell_def index_def put_def wf_len wf_row_len inside_iff)

lemma wf_put: "wf_board b \<Longrightarrow> wf_board (put b r c v)"
proof -
  assume wf: "wf_board b"
  have "length ((grid b)[nat r := (grid b ! nat r)[nat c := v]] ! i) = 8" if "i < 8" for i
    using wf that by (cases "i = nat r") (simp_all add: wf_board_iff)
  with wf show ?thesis by (simp add: wf_board_iff put_def)
qed

lemma piece_at_put:
  "wf_board b \<Longrightarrow> inside r c \<Longrightarrow> inside r' c' \<Longrightarrow>
   piece_at (put b r c v) r' c' = (if r' = r \<and> c' = c then v else piece_at b r' c')"
  by (auto simp: piece_at_def put_def wf_len wf_row_len inside_iff nth_list_update)

lemma make_move_no_checks_inside:
  "wf_board b \<Longrightarrow> inside sr sc \<Longrightarrow> inside dr dc \<Longrightarrow>
   make_move_no_checks b (sr, sc) (dr, dc) = Inr (put (put b dr dc (piece_at b sr sc)) sr sc None)"
  by (simp add: make_move_no_checks_def cell_inside set_cell_inside wf_put)

lemma to_move_put [simp]: "to_move (put b r c v) = to_move b"
  by (simp add: put_def)

lemma copy_id: "copy b = b"
proof -
  have "(\<lambda>p. case p of None \<Rightarrow> None | Some q \<Rightarrow> Some (Piece (color q) (kind q))) = id"
    by (auto simp: fun_eq_iff split: option.splits)
  then show ?thesis by (simp add: copy_def)
qed

lemma new_board_start: "new_board = Inr start_board"
  by code_simp

lemma wf_start_board: "wf_board start_board"
  by code_simp

section \<open>Loops and attack scans\<close>

lemma collect_pure:
  "(\<And>x. x \<in> set xs \<Longrightarrow> f x = Inr (g x)) \<Longrightarrow> collect f xs = Inr (concat (map g xs))"
  by (induction xs) simp_all

lemma collect_total:
  "(\<And>x. x \<in> set xs \<Longrightarrow> \<exists>ms. f x = Inr ms) \<Longrightarrow>
   collect f xs = Inr (concat (map (\<lambda>x. projr (f x)) xs))"
  by (rule collect_pure) (metis sum.sel(2))

lemma first_hit_pure:
  "(\<And>x. x \<in> set xs \<Longrightarrow> f x = Inr (g x)) \<Longrightarrow> first_hit f xs = Inr (\<exists>x \<in> set xs. g x)"
  by (induction xs) auto

lemma is_piece_iff: "is_piece p col k \<longleftrightarrow> p = Some (Piece col k)"
  by (cases p) (auto simp: is_piece_def)

lemma probe_wf:
  "wf_board b \<Longrightarrow>
   probe b by k rr cc = Inr (inside rr cc \<and> piece_at b rr cc = Some (Piece by k))"
  by (simp add: probe_def cell_inside is_piece_iff)

lemma knight_attack_wf:
  "wf_board b \<Longrightarrow>
   knight_attack b r c by =
     Inr (\<exists>(dr, dc) \<in> set knight_deltas.
            inside (r + dr) (c + dc) \<and> piece_at b (r + dr) (c + dc) = Some (Piece by Knight))"
  unfolding knight_attack_def
  by (rule first_hit_pure) (auto simp: probe_wf)

lemma king_attack_wf:
  "wf_board b \<Longrightarrow>
   king_attack b r c by =
     Inr (\<exists>(dr, dc) \<in> set king_deltas.
            inside (r + dr) (c + dc) \<and> piece_at b (r + dr) (c + dc) = Some (Piece by King))"
  unfolding king_attack_def
  by (rule first_hit_pure) (auto simp: probe_wf)

lemma pawn_attack_wf:
  "wf_board b \<Longrightarrow>
   pawn_attack b r c by =
     Inr (\<exists>dc \<in> {-1, 1}.
            inside (r + (if by = White then -1 else 1)) (c + dc) \<and>
            piece_at b (r + (if by = White then -1 else 1)) (c + dc) = Some (Piece by Pawn))"
  unfolding pawn_attack_def Let_def
  by (rule first_hit_pure [THEN trans]) (auto simp: probe_wf)

lemma clear_run_0 [simp]: "clear_run b r c dr dc 0"
  by (simp add: clear_run_def)

lemma clear_run_Suc:
  "clear_run b r c dr dc (Suc n) \<longleftrightarrow>
     inside r c \<and> piece_at b r c = None \<and> clear_run b (r + dr) (c + dc) dr dc n"
  by (simp add: clear_run_def All_less_Suc2 algebra_simps)

lemma ray_attack_wf:
  "wf_board b \<Longrightarrow> (dr, dc) \<noteq> (0, 0) \<Longrightarrow>
   ray_attack b by k dr dc rr cc =
     Inr (\<exists>n. clear_run b rr cc dr dc n \<and>
              inside (rr + int n * dr) (cc + int n * dc) \<and>
              (\<exists>q. piece_at b (rr + int n * dr) (cc + int n * dc) = Some q \<and>
                   color q = by \<and> (kind q = k \<or> kind q = Queen)))"
proof (induction b "by" k dr dc rr cc rule: ray_attack.induct)
  case (1 b "by" k dr dc rr cc)
  define hit where "hit = (\<lambda>rr cc n. clear_run b rr cc dr dc n \<and>
              inside (rr + int n * dr) (cc + int n * dc) \<and>
              (\<exists>q. piece_at b (rr + int n * dr) (cc + int n * dc) = Some q \<and>
                   color q = by \<and> (kind q = k \<or> kind q = Queen)))"
  have goal: "?case \<longleftrightarrow> ray_attack b by k dr dc rr cc = Inr (\<exists>n. hit rr cc n)"
    by (simp add: hit_def)
  show ?case
  proof (cases "inside rr cc")
    case False
    have "\<not> hit rr cc n" for n
      using False by (cases n) (simp_all add: hit_def clear_run_Suc)
    then have "(\<exists>n. hit rr cc n) = False" by simp
    with False show ?thesis
      unfolding goal by (subst ray_attack.simps) simp
  next
    case True
    note ins = True
    show ?thesis
    proof (cases "piece_at b rr cc")
      case (Some q)
      have "hit rr cc n \<longleftrightarrow> n = 0 \<and> color q = by \<and> (kind q = k \<or> kind q = Queen)" for n
        using Some ins by (cases n) (simp_all add: hit_def clear_run_Suc)
      then have "(\<exists>n. hit rr cc n) \<longleftrightarrow> color q = by \<and> (kind q = k \<or> kind q = Queen)"
        by simp
      with ins Some "1.prems" show ?thesis
        unfolding goal by (subst ray_attack.simps) (simp add: cell_inside)
    next
      case None
      have nz: "\<not> (dr = 0 \<and> dc = 0)" using "1.prems" by simp
      have "ray_attack b by k dr dc (rr + dr) (cc + dc) =
          Inr (\<exists>n. clear_run b (rr + dr) (cc + dc) dr dc n \<and>
              inside (rr + dr + int n * dr) (cc + dc + int n * dc) \<and>
              (\<exists>q. piece_at b (rr + dr + int n * dr) (cc + dc + int n * dc) = Some q \<and>
                   color q = by \<and> (kind q = k \<or> kind q = Queen)))"
        using "1.IH" [OF ins cell_inside [OF "1.prems"(1) ins] None nz "1.prems"] .
      then have IH: "ray_attack b by k dr dc (rr + dr) (cc + dc) = Inr (\<exists>n. hit (rr + dr) (cc + dc) n)"
        by (simp add: hit_def)
      have shift: "hit rr cc (Suc n) \<longleftrightarrow> hit (rr + dr) (cc + dc) n" for n
        using ins None by (simp add: hit_def clear_run_Suc algebra_simps)
      have zero: "\<not> hit rr cc 0" using None by (simp add: hit_def)
      have "(\<exists>n. hit rr cc n) \<longleftrightarrow> (\<exists>n. hit (rr + dr) (cc + dc) n)"
      proof
        assume "\<exists>n. hit rr cc n"
        then obtain n where n: "hit rr cc n" ..
        with zero obtain m where "n = Suc m" by (cases n) auto
        with n shift show "\<exists>n. hit (rr + dr) (cc + dc) n" by blast
      next
        assume "\<exists>n. hit (rr + dr) (cc + dc) n"
        then obtain n where "hit (rr + dr) (cc + dc) n" ..
        with shift have "hit rr cc (Suc n)" by blast
        then show "\<exists>n. hit rr cc n" ..
      qed
      then have eq: "(\<exists>n. hit rr cc n) = (\<exists>n. hit (rr + dr) (cc + dc) n)" .
      have c: "cell b rr cc = Inr None"
        using cell_inside [OF "1.prems"(1) ins] None by simp
      have step: "ray_attack b by k dr dc rr cc = ray_attack b by k dr dc (rr + dr) (cc + dc)"
        by (subst ray_attack.simps) (simp add: ins c nz)
      have "ray_attack b by k dr dc rr cc = Inr (\<exists>n. hit rr cc n)"
        unfolding step IH eq ..
      then show ?thesis
        unfolding goal .
    qed
  qed
qed

lemma target_outside: "\<not> inside r c \<Longrightarrow> \<not> target b col r c dr dc n"
  by (cases n) (simp_all add: target_def clear_run_Suc)

lemma target_occupied:
  "inside r c \<Longrightarrow> piece_at b r c = Some q \<Longrightarrow>
   target b col r c dr dc n \<longleftrightarrow> n = 0 \<and> color q \<noteq> col"
  by (cases n) (simp_all add: target_def clear_run_Suc empty_or_enemy_def)

lemma target_empty_0: "inside r c \<Longrightarrow> piece_at b r c = None \<Longrightarrow> target b col r c dr dc 0"
  by (simp add: target_def empty_or_enemy_def)

lemma target_empty_Suc:
  "inside r c \<Longrightarrow> piece_at b r c = None \<Longrightarrow>
   target b col r c dr dc (Suc n) \<longleftrightarrow> target b col (r + dr) (c + dc) dr dc n"
  by (simp add: target_def clear_run_Suc algebra_simps)

lemma ray_wf:
  assumes wf: "wf_board b" and nz: "(dr, dc) \<noteq> (0, 0)"
  shows "\<exists>ms. ray b r c col dr dc nr nc = Inr ms \<and> distinct ms \<and>
           (\<forall>m. m \<in> set ms \<longleftrightarrow>
                (\<exists>n. target b col nr nc dr dc n \<and>
                     m = ((r, c), (nr + int n * dr, nc + int n * dc))))"
  using assms
proof (induction b r c col dr dc nr nc rule: ray.induct)
  case (1 b r c col dr dc nr nc)
  note wf = "1.prems"(1)
  have nz: "\<not> (dr = 0 \<and> dc = 0)" using "1.prems"(2) by simp
  define at where "at = (\<lambda>nr nc (n::nat). ((r, c), (nr + int n * dr, nc + int n * dc)))"
  have goal: "?case \<longleftrightarrow>
      (\<exists>ms. ray b r c col dr dc nr nc = Inr ms \<and> distinct ms \<and>
         (\<forall>m. m \<in> set ms \<longleftrightarrow> (\<exists>n. target b col nr nc dr dc n \<and> m = at nr nc n)))"
    by (simp add: at_def)
  have "\<exists>ms. ray b r c col dr dc nr nc = Inr ms \<and> distinct ms \<and>
         (\<forall>m. m \<in> set ms \<longleftrightarrow> (\<exists>n. target b col nr nc dr dc n \<and> m = at nr nc n))"
  proof (cases "inside nr nc")
    case False
    then have "ray b r c col dr dc nr nc = Inr []"
      by (subst ray.simps) simp
    with False show ?thesis
      by (simp add: target_outside)
  next
    case ins: True
    show ?thesis
    proof (cases "piece_at b nr nc")
      case (Some q)
      have c: "cell b nr nc = Inr (Some q)"
        using cell_inside [OF wf ins] Some by simp
      have run: "ray b r c col dr dc nr nc = Inr (if color q \<noteq> col then [at nr nc 0] else [])"
        by (subst ray.simps) (simp add: ins c at_def)
      show ?thesis
        unfolding run by (auto simp: target_occupied [OF ins Some])
    next
      case None
      have c: "cell b nr nc = Inr None"
        using cell_inside [OF wf ins] None by simp
      from "1.IH" [OF ins c refl nz "1.prems"]
      obtain ms where ms: "ray b r c col dr dc (nr + dr) (nc + dc) = Inr ms" "distinct ms"
        and mem: "\<And>m. m \<in> set ms \<longleftrightarrow>
              (\<exists>n. target b col (nr + dr) (nc + dc) dr dc n \<and> m = at (nr + dr) (nc + dc) n)"
        unfolding at_def by blast
      have run: "ray b r c col dr dc nr nc = Inr (at nr nc 0 # ms)"
        by (subst ray.simps) (simp add: ins c nz ms at_def)
      have at_Suc: "at nr nc (Suc n) = at (nr + dr) (nc + dc) n" for n
        by (simp add: at_def algebra_simps)
      have at_neq: "at nr nc 0 \<noteq> at (nr + dr) (nc + dc) n" for n
      proof
        assume "at nr nc 0 = at (nr + dr) (nc + dc) n"
        then have "(1 + int n) * dr = 0" "(1 + int n) * dc = 0"
          by (simp_all add: at_def algebra_simps)
        then have "dr = 0 \<and> dc = 0" by simp
        with nz show False ..
      qed
      have fresh: "at nr nc 0 \<notin> set ms"
        using at_neq by (auto simp: mem)
      have iff: "(\<exists>n. target b col nr nc dr dc n \<and> m = at nr nc n) \<longleftrightarrow>
                 m = at nr nc 0 \<or> m \<in> set ms" for m
      proof
        assume "\<exists>n. target b col nr nc dr dc n \<and> m = at nr nc n"
        then obtain n where n: "target b col nr nc dr dc n" "m = at nr nc n" by blast
        show "m = at nr nc 0 \<or> m \<in> set ms"
        proof (cases n)
          case 0
          with n show ?thesis by simp
        next
          case (Suc k)
          with n have "target b col (nr + dr) (nc + dc) dr dc k" "m = at (nr + dr) (nc + dc) k"
            by (simp_all add: target_empty_Suc [OF ins None] at_Suc)
          then show ?thesis using mem by blast
        qed
      next
        assume "m = at nr nc 0 \<or> m \<in> set ms"
        then show "\<exists>n. target b col nr nc dr dc n \<and> m = at nr nc n"
        proof
          assume "m = at nr nc 0"
          with target_empty_0 [OF ins None] show ?thesis by blast
        next
          assume "m \<in> set ms"
          then obtain k where "target b col (nr + dr) (nc + dc) dr dc k" "m = at (nr + dr) (nc + dc) k"
            using mem by blast
          then have "target b col nr nc dr dc (Suc k) \<and> m = at nr nc (Suc k)"
            by (simp add: target_empty_Suc [OF ins None] at_Suc)
          then show ?thesis ..
        qed
      qed
      show ?thesis
        unfolding run using ms(2) fresh iff by simp
    qed
  qed
  then show ?case
    unfolding goal .
qed

lemma ray_moves_wf:
  assumes wf: "wf_board b" and nz: "(0, 0) \<notin> set ds"
  shows "\<exists>ms. ray_moves b r c col ds = Inr ms \<and>
           (\<forall>m. m \<in> set ms \<longleftrightarrow>
                (\<exists>(dr, dc) \<in> set ds. \<exists>n. target b col (r + dr) (c + dc) dr dc n \<and>
                     m = ((r, c), (r + dr + int n * dr, c + dc + int n * dc))))"
proof -
  define f where "f = (\<lambda>(dr, dc). ray b r c col dr dc (r + dr) (c + dc))"
  define g where "g = (\<lambda>d. projr (f d))"
  have ray_d: "\<exists>ms. f (dr, dc) = Inr ms \<and>
      (\<forall>m. m \<in> set ms \<longleftrightarrow>
           (\<exists>n. target b col (r + dr) (c + dc) dr dc n \<and>
                m = ((r, c), (r + dr + int n * dr, c + dc + int n * dc))))"
    if "(dr, dc) \<in> set ds" for dr dc
  proof -
    from that nz have "(dr, dc) \<noteq> (0, 0)" by metis
    from ray_wf [OF wf this, of r c col "r + dr" "c + dc"]
    show ?thesis unfolding f_def by auto
  qed
  have run1: "f (dr, dc) = Inr (g (dr, dc))" if "(dr, dc) \<in> set ds" for dr dc
    using ray_d [OF that] by (auto simp: g_def)
  have mem1: "m \<in> set (g (dr, dc)) \<longleftrightarrow>
           (\<exists>n. target b col (r + dr) (c + dc) dr dc n \<and>
                m = ((r, c), (r + dr + int n * dr, c + dc + int n * dc)))"
    if "(dr, dc) \<in> set ds" for dr dc m
  proof -
    from ray_d [OF that] obtain ms where ms: "f (dr, dc) = Inr ms"
      and mem: "\<And>m. m \<in> set ms \<longleftrightarrow>
           (\<exists>n. target b col (r + dr) (c + dc) dr dc n \<and>
                m = ((r, c), (r + dr + int n * dr, c + dc + int n * dc)))"
      by blast
    from ms have "g (dr, dc) = ms" by (simp add: g_def)
    then show ?thesis by (simp only: mem)
  qed
  have "collect f ds = Inr (concat (map g ds))"
    by (rule collect_pure) (use run1 in auto)
  then have run: "ray_moves b r c col ds = Inr (concat (map g ds))"
    by (simp add: ray_moves_def f_def)
  have "m \<in> set (concat (map g ds)) \<longleftrightarrow>
        (\<exists>(dr, dc) \<in> set ds. \<exists>n. target b col (r + dr) (c + dc) dr dc n \<and>
             m = ((r, c), (r + dr + int n * dr, c + dc + int n * dc)))" for m
  proof
    assume "m \<in> set (concat (map g ds))"
    then obtain dr dc where d: "(dr, dc) \<in> set ds" and "m \<in> set (g (dr, dc))" by auto
    then have "\<exists>n. target b col (r + dr) (c + dc) dr dc n \<and>
             m = ((r, c), (r + dr + int n * dr, c + dc + int n * dc))"
      by (simp add: mem1)
    with d show "\<exists>(dr, dc) \<in> set ds. \<exists>n. target b col (r + dr) (c + dc) dr dc n \<and>
             m = ((r, c), (r + dr + int n * dr, c + dc + int n * dc))"
      by (intro bexI [of _ "(dr, dc)"]) simp_all
  next
    assume "\<exists>(dr, dc) \<in> set ds. \<exists>n. target b col (r + dr) (c + dc) dr dc n \<and>
             m = ((r, c), (r + dr + int n * dr, c + dc + int n * dc))"
    then obtain dr dc where d: "(dr, dc) \<in> set ds" and "\<exists>n. target b col (r + dr) (c + dc) dr dc n \<and>
             m = ((r, c), (r + dr + int n * dr, c + dc + int n * dc))" by auto
    then have "m \<in> set (g (dr, dc))" by (simp add: mem1)
    with d show "m \<in> set (concat (map g ds))" by auto
  qed
  with run show ?thesis by blast
qed

lemma straight_attack_total: "wf_board b \<Longrightarrow> \<exists>h. straight_attack b r c by = Inr h"
  unfolding straight_attack_def
  by (rule exI, rule first_hit_pure [where g = "\<lambda>(dr, dc). projr (ray_attack b by Rook dr dc (r + dr) (c + dc))"])
     (auto simp: straight_deltas_def ray_attack_wf)

lemma diagonal_attack_total: "wf_board b \<Longrightarrow> \<exists>h. diagonal_attack b r c by = Inr h"
  unfolding diagonal_attack_def
  by (rule exI, rule first_hit_pure [where g = "\<lambda>(dr, dc). projr (ray_attack b by Bishop dr dc (r + dr) (c + dc))"])
     (auto simp: diagonal_deltas_def ray_attack_wf)

lemma is_square_attacked_parts:
  "knight_attack b r c by = Inr kn \<Longrightarrow> pawn_attack b r c by = Inr pw \<Longrightarrow>
   king_attack b r c by = Inr kg \<Longrightarrow> straight_attack b r c by = Inr st \<Longrightarrow>
   diagonal_attack b r c by = Inr dg \<Longrightarrow>
   is_square_attacked b r c by = Inr (kn \<or> pw \<or> kg \<or> st \<or> dg)"
  by (simp add: is_square_attacked_def)

lemma is_square_attacked_total:
  assumes "wf_board b"
  shows "\<exists>h. is_square_attacked b r c by = Inr h"
proof -
  from straight_attack_total [OF assms] obtain st where "straight_attack b r c by = Inr st" ..
  moreover from diagonal_attack_total [OF assms] obtain dg where "diagonal_attack b r c by = Inr dg" ..
  ultimately show ?thesis
    using is_square_attacked_parts [OF knight_attack_wf [OF assms] pawn_attack_wf [OF assms]
        king_attack_wf [OF assms]] by blast
qed

lemma knight_moves_wf:
  assumes wf: "wf_board b"
  shows "\<exists>ms. knight_moves b r c col = Inr ms \<and>
           (\<forall>m. m \<in> set ms \<longleftrightarrow>
                (\<exists>(dr, dc) \<in> set knight_deltas.
                   m = ((r, c), (r + dr, c + dc)) \<and> inside (r + dr) (c + dc) \<and>
                   empty_or_enemy (piece_at b (r + dr) (c + dc)) col))"
proof -
  define g where "g = (\<lambda>(dr, dc).
      if inside (r + dr) (c + dc) \<and> empty_or_enemy (piece_at b (r + dr) (c + dc)) col
      then [((r, c), (r + dr, c + dc))] else [])"
  have "knight_moves b r c col = Inr (concat (map g knight_deltas))"
    unfolding knight_moves_def
    by (rule collect_pure) (auto simp: g_def Let_def cell_inside [OF wf])
  moreover have "m \<in> set (concat (map g knight_deltas)) \<longleftrightarrow>
                (\<exists>(dr, dc) \<in> set knight_deltas.
                   m = ((r, c), (r + dr, c + dc)) \<and> inside (r + dr) (c + dc) \<and>
                   empty_or_enemy (piece_at b (r + dr) (c + dc)) col)" for m
    by (auto simp: g_def split: if_splits)
  ultimately show ?thesis by blast
qed

lemma king_moves_wf:
  assumes wf: "wf_board b"
  shows "\<exists>ms. king_moves b r c col = Inr ms \<and>
           (\<forall>m. m \<in> set ms \<longleftrightarrow>
                (\<exists>(dr, dc) \<in> set king_deltas.
                   m = ((r, c), (r + dr, c + dc)) \<and> inside (r + dr) (c + dc) \<and>
                   empty_or_enemy (piece_at b (r + dr) (c + dc)) col \<and>
                   is_square_attacked b (r + dr) (c + dc) (opponent col) = Inr False))"
proof -
  define g where "g = (\<lambda>(dr, dc).
      if inside (r + dr) (c + dc) \<and> empty_or_enemy (piece_at b (r + dr) (c + dc)) col \<and>
         is_square_attacked b (r + dr) (c + dc) (opponent col) = Inr False
      then [((r, c), (r + dr, c + dc))] else [])"
  have att: "is_square_attacked b x y (opponent col) = Inr True
      \<or> is_square_attacked b x y (opponent col) = Inr False" for x y
    using is_square_attacked_total [OF wf, of x y "opponent col"] by auto
  have "king_moves b r c col = Inr (concat (map g king_deltas))"
    unfolding king_moves_def
  proof (rule collect_pure)
    fix d assume "d \<in> set king_deltas"
    obtain dr dc where d: "d = (dr, dc)" by (cases d)
    show "(case d of (dr, dc) \<Rightarrow> let nr = r + dr; nc = c + dc
                   in if inside nr nc then
                        fbind (cell b nr nc) (\<lambda>t.
                          if empty_or_enemy t col then
                            fbind (is_square_attacked b nr nc (opponent col)) (\<lambda>att.
                              Inr (if \<not> att then [((r, c), (nr, nc))] else []))
                          else Inr [])
                      else Inr []) = Inr (g d)"
      using att [of "r + dr" "c + dc"]
      by (auto simp: d g_def Let_def cell_inside [OF wf])
  qed
  moreover have "m \<in> set (concat (map g king_deltas)) \<longleftrightarrow>
                (\<exists>(dr, dc) \<in> set king_deltas.
                   m = ((r, c), (r + dr, c + dc)) \<and> inside (r + dr) (c + dc) \<and>
                   empty_or_enemy (piece_at b (r + dr) (c + dc)) col \<and>
                   is_square_attacked b (r + dr) (c + dc) (opponent col) = Inr False)" for m
    by (auto simp: g_def split: if_splits)
  ultimately show ?thesis by blast
qed

lemma pawn_moves_wf:
  assumes wf: "wf_board b"
  shows "\<exists>ms. pawn_moves b r c col = Inr ms \<and>
           (\<forall>m \<in> set ms. fst m = (r, c) \<and> snd m \<noteq> (r, c) \<and>
                inside (fst (snd m)) (snd (snd m)))"
proof -
  define dir :: int where "dir = (if col = White then -1 else 1)"
  define start_row :: int where "start_row = (if col = White then 6 else 1)"
  have two: "inside (r + 2 * dir) c" if "inside (r + dir) c" "r = start_row"
    using that by (auto simp: inside_iff dir_def start_row_def split: if_splits)
  define fwd where "fwd =
     (if inside (r + dir) c \<and> piece_at b (r + dir) c = None then
        (if r = start_row \<and> piece_at b (r + 2 * dir) c = None
         then [((r, c), (r + dir, c)), ((r, c), (r + 2 * dir, c))]
         else [((r, c), (r + dir, c))])
      else [])"
  define cap where "cap = (\<lambda>dc.
     if inside (r + dir) (c + dc) \<and> enemy (piece_at b (r + dir) (c + dc)) col
     then [((r, c), (r + dir, c + dc))] else [])"
  have f: "(if inside (r + dir) c then
              fbind (cell b (r + dir) c) (\<lambda>t.
                if t = None then
                  (if r = start_row then
                        fbind (cell b (r + 2 * dir) c) (\<lambda>t2.
                          Inr (if t2 = None then [((r, c), (r + dir, c)), ((r, c), (r + 2 * dir, c))]
                               else [((r, c), (r + dir, c))]))
                      else Inr [((r, c), (r + dir, c))])
                else Inr [])
            else Inr []) = Inr fwd"
    using two by (auto simp: fwd_def cell_inside [OF wf])
  have c: "collect
             (\<lambda>dc. if inside (r + dir) (c + dc) then
                        fbind (cell b (r + dir) (c + dc)) (\<lambda>target.
                          Inr (if enemy target col then [((r, c), (r + dir, c + dc))] else []))
                      else Inr [])
             [-1, 1] = Inr (concat (map cap [-1, 1]))"
    by (rule collect_pure) (auto simp: cap_def cell_inside [OF wf])
  have run: "pawn_moves b r c col = Inr (fwd @ concat (map cap [-1, 1]))"
    unfolding pawn_moves_def Let_def dir_def [symmetric] start_row_def [symmetric] f c
    by simp
  have "dir \<noteq> 0" by (simp add: dir_def)
  then have "\<forall>m \<in> set (fwd @ concat (map cap [-1, 1])).
          fst m = (r, c) \<and> snd m \<noteq> (r, c) \<and> inside (fst (snd m)) (snd (snd m))"
    using two by (auto simp: fwd_def cap_def split: if_splits)
  with run show ?thesis by blast
qed

lemma set_squares: "set squares = {(r, c). inside r c}"
  by (force simp: squares_def inside_iff ROWS_def COLS_def)

lemma target_inside: "target b col r c dr dc n \<Longrightarrow> inside (r + int n * dr) (c + int n * dc)"
  by (simp add: target_def)

lemma step_off: "(x::int) + d + int n * d = x \<longleftrightarrow> d = 0"
proof -
  have "x + d + int n * d = x + (1 + int n) * d" by (simp add: algebra_simps)
  then show ?thesis by simp
qed

lemma ray_moves_bounds:
  assumes wf: "wf_board b" and nz: "(0, 0) \<notin> set ds"
  shows "\<exists>ms. ray_moves b r c col ds = Inr ms \<and>
           (\<forall>m \<in> set ms. fst m = (r, c) \<and> snd m \<noteq> (r, c) \<and>
                inside (fst (snd m)) (snd (snd m)))"
proof -
  from ray_moves_wf [OF wf nz, of r c col] obtain ms where
    run: "ray_moves b r c col ds = Inr ms" and
    mem: "\<And>m. m \<in> set ms \<longleftrightarrow>
                (\<exists>(dr, dc) \<in> set ds. \<exists>n. target b col (r + dr) (c + dc) dr dc n \<and>
                     m = ((r, c), (r + dr + int n * dr, c + dc + int n * dc)))"
    by blast
  have "fst m = (r, c) \<and> snd m \<noteq> (r, c) \<and> inside (fst (snd m)) (snd (snd m))"
    if "m \<in> set ms" for m
  proof -
    from that obtain dr dc n where d: "(dr, dc) \<in> set ds"
      and t: "target b col (r + dr) (c + dc) dr dc n"
      and m: "m = ((r, c), (r + dr + int n * dr, c + dc + int n * dc))"
      unfolding mem by blast
    from d nz have "\<not> (dr = 0 \<and> dc = 0)" by metis
    moreover have "r + dr + int n * dr = r \<longleftrightarrow> dr = 0" "c + dc + int n * dc = c \<longleftrightarrow> dc = 0"
      using step_off [of r dr n] step_off [of c dc n] by simp_all
    ultimately have "snd m \<noteq> (r, c)" using m by auto
    with t m show ?thesis using target_inside by simp
  qed
  with run show ?thesis by blast
qed

lemma knight_moves_bounds:
  assumes wf: "wf_board b"
  shows "\<exists>ms. knight_moves b r c col = Inr ms \<and>
           (\<forall>m \<in> set ms. fst m = (r, c) \<and> snd m \<noteq> (r, c) \<and>
                inside (fst (snd m)) (snd (snd m)))"
proof -
  from knight_moves_wf [OF wf, of r c col] obtain ms where
    run: "knight_moves b r c col = Inr ms" and
    mem: "\<And>m. m \<in> set ms \<longleftrightarrow>
                (\<exists>(dr, dc) \<in> set knight_deltas.
                   m = ((r, c), (r + dr, c + dc)) \<and> inside (r + dr) (c + dc) \<and>
                   empty_or_enemy (piece_at b (r + dr) (c + dc)) col)"
    by blast
  have "fst m = (r, c) \<and> snd m \<noteq> (r, c) \<and> inside (fst (snd m)) (snd (snd m))"
    if "m \<in> set ms" for m
    using that unfolding mem by (auto simp: knight_deltas_def)
  with run show ?thesis by blast
qed

lemma king_moves_bounds:
  assumes wf: "wf_board b"
  shows "\<exists>ms. king_moves b r c col = Inr ms \<and>
           (\<forall>m \<in> set ms. fst m = (r, c) \<and> snd m \<noteq> (r, c) \<and>
                inside (fst (snd m)) (snd (snd m)))"
proof -
  from king_moves_wf [OF wf, of r c col] obtain ms where
    run: "king_moves b r c col = Inr ms" and
    mem: "\<And>m. m \<in> set ms \<longleftrightarrow>
                (\<exists>(dr, dc) \<in> set king_deltas.
                   m = ((r, c), (r + dr, c + dc)) \<and> inside (r + dr) (c + dc) \<and>
                   empty_or_enemy (piece_at b (r + dr) (c + dc)) col \<and>
                   is_square_attacked b (r + dr) (c + dc) (opponent col) = Inr False)"
    by blast
  have "fst m = (r, c) \<and> snd m \<noteq> (r, c) \<and> inside (fst (snd m)) (snd (snd m))"
    if "m \<in> set ms" for m
    using that unfolding mem by (auto simp: king_deltas_def)
  with run show ?thesis by blast
qed

lemma moves_from_wf:
  assumes wf: "wf_board b" and ins: "inside r c"
  shows "\<exists>ms. moves_from b col (r, c) = Inr ms \<and>
           (\<forall>m \<in> set ms. fst m = (r, c) \<and> snd m \<noteq> (r, c) \<and>
                inside (fst (snd m)) (snd (snd m)))"
proof (cases "piece_at b r c")
  case None
  then show ?thesis by (simp add: moves_from_def cell_inside [OF wf ins])
next
  case (Some q)
  show ?thesis
  proof (cases "color q = col")
    case False
    with Some show ?thesis by (simp add: moves_from_def cell_inside [OF wf ins])
  next
    case True
    have run: "moves_from b col (r, c) =
        (case kind q of
           Pawn \<Rightarrow> pawn_moves b r c col
         | Knight \<Rightarrow> knight_moves b r c col
         | Bishop \<Rightarrow> bishop_moves b r c col
         | Rook \<Rightarrow> rook_moves b r c col
         | Queen \<Rightarrow> queen_moves b r c col
         | King \<Rightarrow> king_moves b r c col)"
      using Some True by (simp add: moves_from_def cell_inside [OF wf ins])
    show ?thesis
      unfolding run
      by (cases "kind q")
         (simp_all add: pawn_moves_wf [OF wf] knight_moves_bounds [OF wf] king_moves_bounds [OF wf]
            bishop_moves_def rook_moves_def queen_moves_def ray_moves_bounds [OF wf])
  qed
qed

lemma collect_mem:
  assumes "\<And>x. x \<in> set xs \<Longrightarrow> \<exists>ms. f x = Inr ms"
  shows "\<exists>ms. collect f xs = Inr ms \<and>
           (\<forall>m. m \<in> set ms \<longleftrightarrow> (\<exists>x \<in> set xs. \<exists>ms'. f x = Inr ms' \<and> m \<in> set ms'))"
proof -
  have run: "collect f xs = Inr (concat (map (\<lambda>x. projr (f x)) xs))"
    using assms by (rule collect_total)
  have sel: "f x = Inr (projr (f x))" if "x \<in> set xs" for x
    using assms [OF that] by auto
  have "m \<in> set (concat (map (\<lambda>x. projr (f x)) xs)) \<longleftrightarrow>
        (\<exists>x \<in> set xs. \<exists>ms'. f x = Inr ms' \<and> m \<in> set ms')" for m
  proof
    assume "m \<in> set (concat (map (\<lambda>x. projr (f x)) xs))"
    then obtain x where "x \<in> set xs" "m \<in> set (projr (f x))" by auto
    with sel show "\<exists>x \<in> set xs. \<exists>ms'. f x = Inr ms' \<and> m \<in> set ms'" by blast
  next
    assume "\<exists>x \<in> set xs. \<exists>ms'. f x = Inr ms' \<and> m \<in> set ms'"
    then obtain x ms' where "x \<in> set xs" "f x = Inr ms'" "m \<in> set ms'" by blast
    then have "x \<in> set xs" "m \<in> set (projr (f x))" by simp_all
    then show "m \<in> set (concat (map (\<lambda>x. projr (f x)) xs))" by auto
  qed
  with run show ?thesis by blast
qed

lemma generate_pseudo_legal_moves_wf:
  assumes wf: "wf_board b"
  shows "\<exists>ms. generate_pseudo_legal_moves b col = Inr ms \<and>
           (\<forall>m. m \<in> set ms \<longleftrightarrow>
              (\<exists>r c ms'. inside r c \<and> moves_from b col (r, c) = Inr ms' \<and> m \<in> set ms'))"
proof -
  have "\<exists>ms. moves_from b col sq = Inr ms" if "sq \<in> set squares" for sq
  proof -
    obtain r c where sq: "sq = (r, c)" by (cases sq)
    with that have "inside r c" by (simp add: set_squares)
    from moves_from_wf [OF wf this, of col] show ?thesis
      unfolding sq by blast
  qed
  from collect_mem [of squares "moves_from b col", OF this]
  show ?thesis
    unfolding generate_pseudo_legal_moves_def by (simp add: set_squares)
qed

lemma generate_pseudo_legal_moves_bounds:
  assumes wf: "wf_board b"
  shows "\<exists>ms. generate_pseudo_legal_moves b col = Inr ms \<and>
           (\<forall>m \<in> set ms. inside (fst (fst m)) (snd (fst m)) \<and> inside (fst (snd m)) (snd (snd m)))"
proof -
  from generate_pseudo_legal_moves_wf [OF wf, of col] obtain ms where
    run: "generate_pseudo_legal_moves b col = Inr ms" and
    mem: "\<And>m. m \<in> set ms \<longleftrightarrow>
              (\<exists>r c ms'. inside r c \<and> moves_from b col (r, c) = Inr ms' \<and> m \<in> set ms')"
    by blast
  have "inside (fst (fst m)) (snd (fst m)) \<and> inside (fst (snd m)) (snd (snd m))"
    if "m \<in> set ms" for m
  proof -
    from that obtain r c ms' where ins: "inside r c"
      and ms': "moves_from b col (r, c) = Inr ms'" "m \<in> set ms'"
      unfolding mem by blast
    from moves_from_wf [OF wf ins, of col] ms'
    have "fst m = (r, c) \<and> inside (fst (snd m)) (snd (snd m))" by auto
    with ins show ?thesis by simp
  qed
  with run show ?thesis by blast
qed

lemma ray_attack_cong:
  assumes same: "\<And>r c. cell b1 r c = cell b2 r c"
  shows "ray_attack b1 by k dr dc rr cc = ray_attack b2 by k dr dc rr cc"
  using same
proof (induction b1 "by" k dr dc rr cc rule: ray_attack.induct)
  case (1 b1 "by" k dr dc rr cc)
  show ?case
  proof (cases "inside rr cc \<and> cell b1 rr cc = Inr None \<and> \<not> (dr = 0 \<and> dc = 0)")
    case True
    then have ins: "inside rr cc" and c: "cell b1 rr cc = Inr None"
      and nz: "\<not> (dr = 0 \<and> dc = 0)" by auto
    have c2: "cell b2 rr cc = Inr None"
      using c "1.prems" [of rr cc] by simp
    have "ray_attack b1 by k dr dc (rr + dr) (cc + dc) = ray_attack b2 by k dr dc (rr + dr) (cc + dc)"
      using "1.IH" [OF ins c refl nz "1.prems"] .
    moreover have "ray_attack b1 by k dr dc rr cc = ray_attack b1 by k dr dc (rr + dr) (cc + dc)"
      by (subst ray_attack.simps) (simp add: ins c nz)
    moreover have "ray_attack b2 by k dr dc rr cc = ray_attack b2 by k dr dc (rr + dr) (cc + dc)"
      by (subst ray_attack.simps) (simp add: ins c2 nz)
    ultimately show ?thesis by simp
  next
    case False
    show ?thesis
      using False "1.prems" [of rr cc]
      by (subst ray_attack.simps, subst (2) ray_attack.simps)
         (auto split: sum.splits option.splits)
  qed
qed

lemma first_hit_cong:
  "(\<And>x. x \<in> set xs \<Longrightarrow> f x = g x) \<Longrightarrow> first_hit f xs = first_hit g xs"
  by (induction xs) (auto simp: fbind_def split: sum.splits)

lemma is_square_attacked_cong:
  assumes same: "\<And>r c. cell b1 r c = cell b2 r c"
  shows "is_square_attacked b1 r c by = is_square_attacked b2 r c by"
proof -
  have p: "probe b1 by k rr cc = probe b2 by k rr cc" for k rr cc
    by (simp add: probe_def same)
  have "knight_attack b1 r c by = knight_attack b2 r c by"
    "pawn_attack b1 r c by = pawn_attack b2 r c by"
    "king_attack b1 r c by = king_attack b2 r c by"
    "straight_attack b1 r c by = straight_attack b2 r c by"
    "diagonal_attack b1 r c by = diagonal_attack b2 r c by"
    by (simp_all add: knight_attack_def pawn_attack_def king_attack_def straight_attack_def
        diagonal_attack_def p ray_attack_cong [OF same])
  then show ?thesis by (simp add: is_square_attacked_def)
qed

lemma king_scan_cong:
  assumes same: "\<And>r c. cell b1 r c = cell b2 r c"
  shows "king_scan b1 col sqs = king_scan b2 col sqs"
  by (induction sqs) (auto simp: same fbind_def split: sum.splits)

lemma is_in_check_cong:
  assumes same: "\<And>r c. cell b1 r c = cell b2 r c"
  shows "is_in_check b1 col = is_in_check b2 col"
proof -
  have att: "is_square_attacked b1 = is_square_attacked b2"
    by (intro ext) (rule is_square_attacked_cong [OF same])
  show ?thesis
    unfolding is_in_check_def king_position_def king_scan_cong [OF same] att ..
qed

lemma king_scan_wf:
  assumes wf: "wf_board b"
  shows "(\<And>sq. sq \<in> set sqs \<Longrightarrow> inside (fst sq) (snd sq)) \<Longrightarrow>
         \<exists>res. king_scan b col sqs = Inr res \<and>
           (res = None \<longrightarrow> (\<forall>sq \<in> set sqs. piece_at b (fst sq) (snd sq) \<noteq> Some (Piece col King))) \<and>
           (\<forall>kr kc. res = Some (kr, kc) \<longrightarrow>
               (kr, kc) \<in> set sqs \<and> piece_at b kr kc = Some (Piece col King))"
proof (induction sqs)
  case Nil
  then show ?case by simp
next
  case (Cons sq sqs)
  obtain r c where sq: "sq = (r, c)" by (cases sq)
  have ins: "inside r c" using Cons.prems [of sq] sq by simp
  show ?case
  proof (cases "piece_at b r c = Some (Piece col King)")
    case True
    then show ?thesis
      by (simp add: sq cell_inside [OF wf ins] is_piece_iff)
  next
    case False
    from Cons.IH Cons.prems obtain res where
      "king_scan b col sqs = Inr res"
      "res = None \<longrightarrow> (\<forall>sq \<in> set sqs. piece_at b (fst sq) (snd sq) \<noteq> Some (Piece col King))"
      "\<forall>kr kc. res = Some (kr, kc) \<longrightarrow>
               (kr, kc) \<in> set sqs \<and> piece_at b kr kc = Some (Piece col King)"
      by auto
    with False show ?thesis
      by (simp add: sq cell_inside [OF wf ins] is_piece_iff)
  qed
qed

lemma king_position_wf:
  assumes wf: "wf_board b"
  shows "\<exists>res. king_position b col = Inr res \<and>
           (res = None \<longrightarrow> (\<forall>r c. inside r c \<longrightarrow> piece_at b r c \<noteq> Some (Piece col King))) \<and>
           (\<forall>kr kc. res = Some (kr, kc) \<longrightarrow>
               inside kr kc \<and> piece_at b kr kc = Some (Piece col King))"
proof -
  have "inside (fst sq) (snd sq)" if "sq \<in> set squares" for sq
    using that by (auto simp: set_squares)
  from king_scan_wf [OF wf this, of squares col]
  show ?thesis
    unfolding king_position_def by (auto simp: set_squares)
qed

lemma is_in_check_total:
  assumes wf: "wf_board b"
  shows "\<exists>h. is_in_check b col = Inr h"
proof -
  from king_position_wf [OF wf, of col] obtain res where res: "king_position b col = Inr res"
    by blast
  show ?thesis
  proof (cases res)
    case None
    with res show ?thesis by (auto simp: is_in_check_def)
  next
    case (Some sq)
    obtain kr kc where "sq = (kr, kc)" by (cases sq)
    with res Some is_square_attacked_total [OF wf, of kr kc "opponent col"]
    show ?thesis by (simp add: is_in_check_def)
  qed
qed

lemma is_in_check_no_king:
  assumes wf: "wf_board b"
    and none: "\<And>r c. inside r c \<Longrightarrow> piece_at b r c \<noteq> Some (Piece col King)"
  shows "is_in_check b col = Inr False"
proof -
  from king_position_wf [OF wf, of col] obtain res where res: "king_position b col = Inr res"
    and some: "\<And>kr kc. res = Some (kr, kc) \<Longrightarrow>
               inside kr kc \<and> piece_at b kr kc = Some (Piece col King)"
    by blast
  have "res = None"
  proof (cases res)
    case (Some sq)
    obtain kr kc where "sq = (kr, kc)" by (cases sq)
    with Some some none show ?thesis by blast
  qed simp
  with res show ?thesis by (simp add: is_in_check_def)
qed

lemma moves_from_piece:
  assumes wf: "wf_board b" and ins: "inside r c"
    and run: "moves_from b col (r, c) = Inr ms" and m: "m \<in> set ms"
  shows "\<exists>q. piece_at b r c = Some q \<and> color q = col"
proof (cases "piece_at b r c")
  case None
  with run m show ?thesis by (simp add: moves_from_def cell_inside [OF wf ins])
next
  case (Some q)
  with run m have "color q = col"
    by (cases "color q = col") (simp_all add: moves_from_def cell_inside [OF wf ins])
  with Some show ?thesis by simp
qed

lemma candidate_facts:
  assumes wf: "wf_board b" and run: "generate_pseudo_legal_moves b col = Inr ps"
    and m: "(src, dst) \<in> set ps"
  shows "inside (fst src) (snd src) \<and> inside (fst dst) (snd dst) \<and> src \<noteq> dst \<and>
         (\<exists>q. piece_at b (fst src) (snd src) = Some q \<and> color q = col)"
proof -
  from generate_pseudo_legal_moves_wf [OF wf, of col] obtain ms where
    ms: "generate_pseudo_legal_moves b col = Inr ms" and
    mem0: "\<And>m. m \<in> set ms \<longleftrightarrow>
              (\<exists>r c ms'. inside r c \<and> moves_from b col (r, c) = Inr ms' \<and> m \<in> set ms')"
    by blast
  from ms run have "ms = ps" by simp
  note mem = mem0 [unfolded this]
  from m obtain r c ms' where ins: "inside r c"
    and ms': "moves_from b col (r, c) = Inr ms'" "(src, dst) \<in> set ms'"
    unfolding mem by blast
  from moves_from_wf [OF wf ins, of col] ms'
  have "src = (r, c)" "dst \<noteq> (r, c)" "inside (fst dst) (snd dst)" by auto
  moreover from moves_from_piece [OF wf ins ms']
  have "\<exists>q. piece_at b r c = Some q \<and> color q = col" .
  ultimately show ?thesis using ins by auto
qed

lemma wf_relocate: "wf_board b \<Longrightarrow> wf_board (relocate b src dst)"
  by (simp add: relocate_def wf_put)

lemma make_move_no_checks_relocate:
  "wf_board b \<Longrightarrow> inside (fst src) (snd src) \<Longrightarrow> inside (fst dst) (snd dst) \<Longrightarrow>
   make_move_no_checks b src dst = Inr (relocate b src dst)"
  using make_move_no_checks_inside [of b "fst src" "snd src" "fst dst" "snd dst"]
  by (simp add: relocate_def)

lemma simulate_candidate:
  assumes wf: "wf_board b" and src: "inside (fst src) (snd src)"
    and dst: "inside (fst dst) (snd dst)"
    and p: "piece_at b (fst src) (snd src) = Some q" "color q = col"
  shows "simulate b src dst = Inr (spec_clone b col src dst)"
proof -
  have "promote (relocate b src dst) (Some q) dst = Inr (spec_clone b col src dst)"
    using p dst wf
    by (cases dst; cases col)
       (auto simp: promote_def spec_clone_def set_cell_inside wf_relocate)
  then show ?thesis
    using wf src dst p
    by (simp add: simulate_def copy_id make_move_no_checks_relocate cell_inside)
qed

lemma wf_spec_clone: "wf_board b \<Longrightarrow> wf_board (spec_clone b col src dst)"
  by (simp add: spec_clone_def wf_relocate wf_put)

lemma concat_map_filter: "concat (map (\<lambda>x. if P x then [x] else []) xs) = filter P xs"
  by (induction xs) simp_all

lemma generate_legal_moves_filter:
  assumes wf: "wf_board b" and run: "generate_pseudo_legal_moves b col = Inr ps"
  shows "generate_legal_moves b col =
           Inr (filter (\<lambda>(src, dst). is_in_check (spec_clone b col src dst) col = Inr False) ps)"
proof -
  define P where "P = (\<lambda>(src, dst). is_in_check (spec_clone b col src dst) col = Inr False)"
  define f where "f = (\<lambda>(src, dst).
            fbind (simulate b src dst) (\<lambda>b2.
            fbind (is_in_check b2 col) (\<lambda>chk.
              Inr (if \<not> chk then [(src, dst)] else []))))"
  have one: "f m = Inr (if P m then [m] else [])" if "m \<in> set ps" for m
  proof -
    obtain src dst where m: "m = (src, dst)" by (cases m)
    from candidate_facts [OF wf run that [unfolded m]]
    obtain q where "inside (fst src) (snd src)" "inside (fst dst) (snd dst)"
      "piece_at b (fst src) (snd src) = Some q" "color q = col" by blast
    from simulate_candidate [OF wf this]
    have sim: "simulate b src dst = Inr (spec_clone b col src dst)" .
    from is_in_check_total [OF wf_spec_clone [OF wf], of col src dst col]
    obtain h where h: "is_in_check (spec_clone b col src dst) col = Inr h" ..
    show ?thesis by (simp add: m f_def P_def sim h)
  qed
  have "collect f ps = Inr (concat (map (\<lambda>m. if P m then [m] else []) ps))"
    by (rule collect_pure) (rule one)
  then have "generate_legal_moves b col = Inr (filter P ps)"
    by (simp add: generate_legal_moves_def run f_def concat_map_filter)
  then show ?thesis by (simp add: P_def)
qed

lemma make_move_simulate:
  assumes wf: "wf_board b" and src: "inside (fst src) (snd src)"
    and dst: "inside (fst dst) (snd dst)" and sim: "simulate b src dst = Inr b2"
  shows "make_move b src dst = Inr (b2\<lparr>to_move := (if to_move b2 = White then Black else White)\<rparr>)"
  using assms
  by (simp add: make_move_def simulate_def copy_id make_move_no_checks_relocate cell_inside)

section \<open>Applying a move\<close>

text \<open>
  C9, as stated: the unchecked move leaves the piece of \<open>from\<close> on \<open>to\<close>. It does not when
  \<open>from = to\<close>: the second assignment of \<^verbatim>\<open>_make_move_no_checks\<close> clears the square
  that the first one has just written. On the starting position, "moving" the pawn of
  \<open>(6, 0)\<close> onto its own square returns a board on which \<open>(6, 0)\<close> is empty.
\<close>

theorem make_move_no_checks_same_square:
  "cell start_board 6 0 = Inr (Some (Piece White Pawn)) \<and>
   look (make_move_no_checks start_board (6, 0) (6, 0)) 6 0 = Inr None"
  by code_simp

text \<open>
  C9, amended: on a well-formed board and for in-bounds squares the unchecked move always
  succeeds (no legality test), keeps the shape of the board and the side to move, leaves
  \<open>from\<close> empty, leaves on \<open>to\<close> exactly what stood on \<open>from\<close> (whatever stood on \<open>to\<close>,
  and with no promotion) when \<open>to\<close> is another square, and changes no other square.
\<close>

theorem make_move_no_checks_effect:
  assumes "wf_board b" and "inside sr sc" and "inside dr dc"
  shows "\<exists>b'. make_move_no_checks b (sr, sc) (dr, dc) = Inr b' \<and>
           wf_board b' \<and> to_move b' = to_move b \<and>
           cell b' sr sc = Inr None \<and>
           ((sr, sc) \<noteq> (dr, dc) \<longrightarrow> cell b' dr dc = cell b sr sc) \<and>
           (\<forall>r c. inside r c \<longrightarrow> (r, c) \<noteq> (sr, sc) \<longrightarrow> (r, c) \<noteq> (dr, dc) \<longrightarrow>
                  cell b' r c = cell b r c)"
proof -
  let ?b1 = "put b dr dc (piece_at b sr sc)"
  let ?b' = "put ?b1 sr sc None"
  have wf1: "wf_board ?b1" and wf': "wf_board ?b'"
    using assms(1) by (simp_all add: wf_put)
  have run: "make_move_no_checks b (sr, sc) (dr, dc) = Inr ?b'"
    using assms by (rule make_move_no_checks_inside)
  have at: "piece_at ?b' r c =
      (if r = sr \<and> c = sc then None
       else if r = dr \<and> c = dc then piece_at b sr sc else piece_at b r c)"
    if "inside r c" for r c
    using that assms wf1 by (simp add: piece_at_put)
  have src: "cell ?b' sr sc = Inr None"
    using at [OF assms(2)] wf' assms(2) by (simp add: cell_inside)
  have dst: "cell ?b' dr dc = cell b sr sc" if "(sr, sc) \<noteq> (dr, dc)"
    using at [OF assms(3)] wf' assms that by (auto simp: cell_inside)
  have rest: "cell ?b' r c = cell b r c"
    if "inside r c" "(r, c) \<noteq> (sr, sc)" "(r, c) \<noteq> (dr, dc)" for r c
    using at [OF that(1)] wf' assms(1) that by (auto simp: cell_inside)
  show ?thesis
    using run wf' src dst rest by (intro exI [of _ ?b']) simp
qed

theorem make_move_no_checks_effect_witness:
  "wf_board start_board \<and> inside 6 4 \<and> inside 4 4 \<and>
   look (make_move_no_checks start_board (6, 4) (4, 4)) 4 4 = Inr (Some (Piece White Pawn)) \<and>
   look (make_move_no_checks start_board (6, 4) (4, 4)) 6 4 = Inr None"
proof -
  have h1: "wf_board start_board" by (rule wf_start_board)
  have h2: "inside 6 4" and h3: "inside 4 4" by (simp_all add: inside_iff)
  have src: "cell start_board 6 4 = Inr (Some (Piece White Pawn))" by code_simp
  from make_move_no_checks_effect [OF h1 h2 h3] obtain b' where
    "make_move_no_checks start_board (6, 4) (4, 4) = Inr b'"
    "cell b' 6 4 = Inr None" "cell b' 4 4 = cell start_board 6 4"
    by auto
  with h1 h2 h3 src show ?thesis by (simp add: look_def)
qed

lemma cell_to_move [simp]: "cell (b\<lparr>to_move := x\<rparr>) r c = cell b r c"
  by (simp add: cell_def)

lemma piece_at_relocate:
  assumes "wf_board b" "inside (fst src) (snd src)" "inside (fst dst) (snd dst)" "inside r c"
  shows "piece_at (relocate b src dst) r c =
           (if (r, c) = src then None
            else if (r, c) = dst then piece_at b (fst src) (snd src) else piece_at b r c)"
  using assms by (cases src; cases dst) (simp add: relocate_def piece_at_put wf_put)

lemma piece_at_spec_clone:
  assumes wf: "wf_board b" and src: "inside (fst src) (snd src)"
    and dst: "inside (fst dst) (snd dst)" and ne: "src \<noteq> dst" and ins: "inside r c"
    and p: "piece_at b (fst src) (snd src) = Some p"
  shows "piece_at (spec_clone b col src dst) r c =
           (if (r, c) = src then None
            else if (r, c) = dst then
              Some (if kind p = Pawn \<and> fst dst = (if col = White then 0 else 7)
                    then Piece col Queen else p)
            else piece_at b r c)"
  using assms
  by (cases src; cases dst)
     (auto simp: spec_clone_def piece_at_put wf_relocate piece_at_relocate)

section \<open>Bounds and totality of move generation\<close>

text \<open>
  C10: on every board of the 8 by 8 shape both generators return a list (no index fault:
  \<open>cell\<close> reports every index outside \<open>[0, 8)\<close>, also the ones Python would wrap),
  every legal move is a pseudo-legal one, and both squares of every move are in bounds.
  \<open>pawn_moves\<close>, whose double step reads the grid without calling \<open>inside\<close>, returns a
  list from every square \<open>(r, c)\<close>: that read happens only on the home rank.
\<close>

theorem generated_moves_in_bounds:
  assumes "wf_board b"
  shows "\<exists>ps ls. generate_pseudo_legal_moves b col = Inr ps \<and>
           generate_legal_moves b col = Inr ls \<and> set ls \<subseteq> set ps \<and>
           (\<forall>m \<in> set ps. inside (fst (fst m)) (snd (fst m)) \<and>
                          inside (fst (snd m)) (snd (snd m))) \<and>
           (\<forall>r c. \<exists>ms. pawn_moves b r c col = Inr ms)"
proof -
  from generate_pseudo_legal_moves_bounds [OF assms, of col] obtain ps where
    ps: "generate_pseudo_legal_moves b col = Inr ps"
    "\<forall>m \<in> set ps. inside (fst (fst m)) (snd (fst m)) \<and> inside (fst (snd m)) (snd (snd m))"
    by blast
  have "\<exists>ms. pawn_moves b r c col = Inr ms" for r c
    using pawn_moves_wf [OF assms, of r c col] by blast
  with ps generate_legal_moves_filter [OF assms ps(1)] show ?thesis
    by (intro exI [of _ ps] exI [of _ "filter (\<lambda>(src, dst). is_in_check (spec_clone b col src dst) col = Inr False) ps"])
       simp
qed

theorem generated_moves_in_bounds_witness:
  "wf_board start_board \<and>
   (\<exists>ps ls. generate_pseudo_legal_moves start_board White = Inr ps \<and>
           generate_legal_moves start_board White = Inr ls \<and> set ls \<subseteq> set ps \<and>
           (\<forall>m \<in> set ps. inside (fst (fst m)) (snd (fst m)) \<and>
                          inside (fst (snd m)) (snd (snd m))) \<and>
           (\<forall>r c. \<exists>ms. pawn_moves start_board r c White = Inr ms))"
  using generated_moves_in_bounds [OF wf_start_board, of White] wf_start_board by simp

section \<open>A missing king\<close>

lemma no_king_iff:
  "wf_board b \<Longrightarrow>
   no_king b col \<longleftrightarrow> (\<forall>r c. inside r c \<longrightarrow> piece_at b r c \<noteq> Some (Piece col King))"
  by (auto simp: no_king_def set_squares cell_inside)

text \<open>
  C5: if no square holds a king of the colour, \<open>is_in_check\<close> returns \<open>False\<close> and no fault;
  hence a pseudo-legal move whose simulated successor holds no king of the mover is in the
  list that \<open>generate_legal_moves\<close> returns.
\<close>

theorem missing_king_is_permissive:
  assumes wf: "wf_board b"
  shows "(no_king b col \<longrightarrow> is_in_check b col = Inr False) \<and>
         (\<forall>ps src dst b2.
            generate_pseudo_legal_moves b col = Inr ps \<and> (src, dst) \<in> set ps \<and>
            simulate b src dst = Inr b2 \<and> no_king b2 col \<longrightarrow>
            (\<exists>ls. generate_legal_moves b col = Inr ls \<and> (src, dst) \<in> set ls))"
proof (intro conjI allI impI)
  assume "no_king b col"
  then show "is_in_check b col = Inr False"
    using is_in_check_no_king [OF wf, of col] by (simp add: no_king_iff [OF wf])
next
  fix ps src dst b2
  assume a: "generate_pseudo_legal_moves b col = Inr ps \<and> (src, dst) \<in> set ps \<and>
            simulate b src dst = Inr b2 \<and> no_king b2 col"
  then have ps: "generate_pseudo_legal_moves b col = Inr ps" and m: "(src, dst) \<in> set ps"
    and sim: "simulate b src dst = Inr b2" and nk: "no_king b2 col" by simp_all
  from candidate_facts [OF wf ps m] obtain q where
    "inside (fst src) (snd src)" "inside (fst dst) (snd dst)"
    "piece_at b (fst src) (snd src) = Some q" "color q = col" by blast
  from simulate_candidate [OF wf this] sim have b2: "b2 = spec_clone b col src dst" by simp
  then have wf2: "wf_board b2" by (simp add: wf_spec_clone [OF wf])
  have "is_in_check b2 col = Inr False"
    using is_in_check_no_king [OF wf2, of col] nk by (simp add: no_king_iff [OF wf2])
  with m b2 show "\<exists>ls. generate_legal_moves b col = Inr ls \<and> (src, dst) \<in> set ls"
    by (simp add: generate_legal_moves_filter [OF wf ps])
qed

theorem missing_king_is_permissive_witness:
  "wf_board knight_only_board \<and> no_king knight_only_board White \<and>
   is_in_check knight_only_board White = Inr False \<and>
   generate_pseudo_legal_moves knight_only_board White =
     Inr [((7, 1), (5, 0)), ((7, 1), (5, 2)), ((7, 1), (6, 3))] \<and>
   no_king (projr (simulate knight_only_board (7, 1) (5, 2))) White \<and>
   (\<exists>ls. generate_legal_moves knight_only_board White = Inr ls \<and> ((7, 1), (5, 2)) \<in> set ls)"
proof -
  have wf: "wf_board knight_only_board" by code_simp
  have nk: "no_king knight_only_board White" by code_simp
  have ps: "generate_pseudo_legal_moves knight_only_board White =
     Inr [((7, 1), (5, 0)), ((7, 1), (5, 2)), ((7, 1), (6, 3))]" by code_simp
  have sim: "simulate knight_only_board (7, 1) (5, 2) =
      Inr (projr (simulate knight_only_board (7, 1) (5, 2)))" by code_simp
  have nk2: "no_king (projr (simulate knight_only_board (7, 1) (5, 2))) White" by code_simp
  note inst = missing_king_is_permissive [OF wf, of White]
  from inst nk have chk: "is_in_check knight_only_board White = Inr False" by blast
  have "\<exists>ls. generate_legal_moves knight_only_board White = Inr ls \<and> ((7, 1), (5, 2)) \<in> set ls"
    by (rule inst [THEN conjunct2, rule_format], intro conjI, rule ps, simp, rule sim, rule nk2)
  with chk
  have "is_in_check knight_only_board White = Inr False"
    and "\<exists>ls. generate_legal_moves knight_only_board White = Inr ls \<and> ((7, 1), (5, 2)) \<in> set ls"
    by simp_all
  with wf nk ps nk2 show ?thesis by simp
qed

section \<open>The legality filter\<close>

lemma legal_move_facts:
  assumes wf: "wf_board b" and ls: "generate_legal_moves b col = Inr ls"
    and m: "(src, dst) \<in> set ls"
  shows "inside (fst src) (snd src) \<and> inside (fst dst) (snd dst) \<and>
         simulate b src dst = Inr (spec_clone b col src dst) \<and>
         is_in_check (spec_clone b col src dst) col = Inr False"
proof -
  from generate_pseudo_legal_moves_wf [OF wf, of col] obtain ps where
    ps: "generate_pseudo_legal_moves b col = Inr ps" by blast
  from generate_legal_moves_filter [OF wf ps] ls m
  have cand: "(src, dst) \<in> set ps"
    and safe: "is_in_check (spec_clone b col src dst) col = Inr False" by auto
  from candidate_facts [OF wf ps cand] obtain q where
    f: "inside (fst src) (snd src)" "inside (fst dst) (snd dst)"
    "piece_at b (fst src) (snd src) = Some q" "color q = col" by blast
  from simulate_candidate [OF wf f] f(1,2) safe show ?thesis by simp
qed

text \<open>
  C4: every move that \<open>generate_legal_moves\<close> returns for a colour can be applied by
  \<open>make_move\<close> (the move, the promotion to a queen, the change of turn), and on the board
  that results \<open>is_in_check\<close> of that colour is \<open>False\<close>.
\<close>

theorem legal_moves_leave_no_self_check:
  assumes wf: "wf_board b" and ls: "generate_legal_moves b col = Inr ls"
    and m: "(src, dst) \<in> set ls"
  shows "\<exists>b'. make_move b src dst = Inr b' \<and> is_in_check b' col = Inr False"
proof -
  let ?b2 = "spec_clone b col src dst"
  let ?b' = "?b2\<lparr>to_move := (if to_move ?b2 = White then Black else White)\<rparr>"
  from legal_move_facts [OF wf ls m]
  have src: "inside (fst src) (snd src)" and dst: "inside (fst dst) (snd dst)"
    and sim: "simulate b src dst = Inr ?b2"
    and safe: "is_in_check ?b2 col = Inr False" by simp_all
  have "make_move b src dst = Inr ?b'"
    using make_move_simulate [OF wf src dst sim] .
  moreover have "is_in_check ?b' col = is_in_check ?b2 col"
    by (rule is_in_check_cong) simp
  ultimately show ?thesis using safe by simp
qed

theorem legal_moves_leave_no_self_check_witness:
  "wf_board start_board \<and>
   generate_legal_moves start_board White =
     Inr (concat (map (\<lambda>c. [((6, c), (5, c)), ((6, c), (4, c))]) [0..7]) @
          [((7, 1), (5, 0)), ((7, 1), (5, 2)), ((7, 6), (5, 5)), ((7, 6), (5, 7))]) \<and>
   (\<exists>b'. make_move start_board (6, 4) (4, 4) = Inr b' \<and> is_in_check b' White = Inr False)"
proof -
  have ls: "generate_legal_moves start_board White =
     Inr (concat (map (\<lambda>c. [((6, c), (5, c)), ((6, c), (4, c))]) [0..7]) @
          [((7, 1), (5, 0)), ((7, 1), (5, 2)), ((7, 6), (5, 5)), ((7, 6), (5, 7))])"
    by code_simp
  have m: "((6, 4), (4, 4)) \<in> set (concat (map (\<lambda>c. [((6, c), (5, c)), ((6, c), (4, c))]) [0..7]) @
          [((7, 1), (5, 0)), ((7, 1), (5, 2)), ((7, 6), (5, 5)), ((7::int, 6::int), (5::int, 7::int))])"
    by code_simp
  from legal_moves_leave_no_self_check [OF wf_start_board ls m] wf_start_board ls
  show ?thesis by simp
qed

text \<open>
  C6: \<open>generate_legal_moves\<close> keeps a pseudo-legal candidate exactly when \<open>is_in_check\<close> is
  \<open>False\<close> on the clone that \<open>simulate\<close> builds for it. On that clone the source square is
  empty and every square other than source and destination is as on the board; the
  destination holds a queen of the mover's colour when the piece that moved is a pawn
  and the destination row is 0 for White, 7 for Black, and in every other case the
  very piece that moved.
\<close>

theorem legal_filter_checks_promoted_clone:
  assumes wf: "wf_board b" and ps: "generate_pseudo_legal_moves b col = Inr ps"
  shows "\<exists>ls. generate_legal_moves b col = Inr ls \<and> set ls \<subseteq> set ps \<and>
           (\<forall>(src, dst) \<in> set ps. \<exists>p b2.
               cell b (fst src) (snd src) = Inr (Some p) \<and> color p = col \<and>
               simulate b src dst = Inr b2 \<and>
               ((src, dst) \<in> set ls \<longleftrightarrow> is_in_check b2 col = Inr False) \<and>
               cell b2 (fst dst) (snd dst) =
                 Inr (Some (if kind p = Pawn \<and> fst dst = (if col = White then 0 else 7)
                            then Piece col Queen else p)) \<and>
               cell b2 (fst src) (snd src) = Inr None \<and>
               (\<forall>r c. inside r c \<longrightarrow> (r, c) \<noteq> src \<longrightarrow> (r, c) \<noteq> dst \<longrightarrow>
                      cell b2 r c = cell b r c))"
proof -
  define ls where
    "ls = filter (\<lambda>(src, dst). is_in_check (spec_clone b col src dst) col = Inr False) ps"
  have run: "generate_legal_moves b col = Inr ls"
    unfolding ls_def by (rule generate_legal_moves_filter [OF wf ps])
  have sub: "set ls \<subseteq> set ps" by (simp add: ls_def)
  have one: "\<exists>p b2.
               cell b (fst src) (snd src) = Inr (Some p) \<and> color p = col \<and>
               simulate b src dst = Inr b2 \<and>
               ((src, dst) \<in> set ls \<longleftrightarrow> is_in_check b2 col = Inr False) \<and>
               cell b2 (fst dst) (snd dst) =
                 Inr (Some (if kind p = Pawn \<and> fst dst = (if col = White then 0 else 7)
                            then Piece col Queen else p)) \<and>
               cell b2 (fst src) (snd src) = Inr None \<and>
               (\<forall>r c. inside r c \<longrightarrow> (r, c) \<noteq> src \<longrightarrow> (r, c) \<noteq> dst \<longrightarrow>
                      cell b2 r c = cell b r c)"
    if cand: "(src, dst) \<in> set ps" for src dst
  proof -
    let ?b2 = "spec_clone b col src dst"
    from candidate_facts [OF wf ps cand] obtain p where
      src: "inside (fst src) (snd src)" and dst: "inside (fst dst) (snd dst)"
      and ne: "src \<noteq> dst"
      and p: "piece_at b (fst src) (snd src) = Some p" "color p = col" by blast
    have wf2: "wf_board ?b2" by (rule wf_spec_clone [OF wf])
    note at = piece_at_spec_clone [OF wf src dst ne _ p(1), of _ _ col]
    have "cell b (fst src) (snd src) = Inr (Some p)"
      using p by (simp add: cell_inside [OF wf src])
    moreover have "simulate b src dst = Inr ?b2"
      by (rule simulate_candidate [OF wf src dst p])
    moreover have "(src, dst) \<in> set ls \<longleftrightarrow> is_in_check ?b2 col = Inr False"
      using cand by (simp add: ls_def)
    moreover have "cell ?b2 (fst dst) (snd dst) =
                 Inr (Some (if kind p = Pawn \<and> fst dst = (if col = White then 0 else 7)
                            then Piece col Queen else p))"
      using at [OF dst] ne by (simp add: cell_inside [OF wf2 dst])
    moreover have "cell ?b2 (fst src) (snd src) = Inr None"
      using at [OF src] by (simp add: cell_inside [OF wf2 src])
    moreover have "cell ?b2 r c = cell b r c"
      if "inside r c" "(r, c) \<noteq> src" "(r, c) \<noteq> dst" for r c
      using at [OF that(1)] that by (simp add: cell_inside [OF wf2] cell_inside [OF wf])
    ultimately show ?thesis using p(2) by blast
  qed
  from run sub one show ?thesis by blast
qed

theorem legal_filter_checks_promoted_clone_witness:
  "wf_board promotion_board \<and>
   generate_pseudo_legal_moves promotion_board White =
     Inr [((1, 0), (0, 0)), ((7, 4), (6, 3)), ((7, 4), (6, 4)), ((7, 4), (6, 5)),
          ((7, 4), (7, 3)), ((7, 4), (7, 5))] \<and>
   look (simulate promotion_board (1, 0) (0, 0)) 0 0 = Inr (Some (Piece White Queen)) \<and>
   look (simulate promotion_board (1, 0) (0, 0)) 1 0 = Inr None \<and>
   (\<exists>ls. generate_legal_moves promotion_board White = Inr ls \<and> ((1, 0), (0, 0)) \<in> set ls)"
proof -
  have wf: "wf_board promotion_board" by code_simp
  have ps: "generate_pseudo_legal_moves promotion_board White =
     Inr [((1, 0), (0, 0)), ((7, 4), (6, 3)), ((7, 4), (6, 4)), ((7, 4), (6, 5)),
          ((7, 4), (7, 3)), ((7, 4), (7, 5))]" by code_simp
  have pawn: "cell promotion_board 1 0 = Inr (Some (Piece White Pawn))" by code_simp
  have safe: "is_in_check (projr (simulate promotion_board (1, 0) (0, 0))) White = Inr False"
    by code_simp
  from legal_filter_checks_promoted_clone [OF wf ps] obtain ls where
    ls: "generate_legal_moves promotion_board White = Inr ls"
    and each: "\<forall>(src, dst) \<in> set [((1, 0), (0, 0)), ((7, 4), (6, 3)), ((7, 4), (6, 4)),
          ((7, 4), (6, 5)), ((7, 4), (7, 3)), ((7, 4), (7, 5))]. \<exists>p b2.
               cell promotion_board (fst src) (snd src) = Inr (Some p) \<and> color p = White \<and>
               simulate promotion_board src dst = Inr b2 \<and>
               ((src, dst) \<in> set ls \<longleftrightarrow> is_in_check b2 White = Inr False) \<and>
               cell b2 (fst dst) (snd dst) =
                 Inr (Some (if kind p = Pawn \<and> fst dst = (if White = White then 0 else 7)
                            then Piece White Queen else p)) \<and>
               cell b2 (fst src) (snd src) = Inr None \<and>
               (\<forall>r c. inside r c \<longrightarrow> (r, c) \<noteq> src \<longrightarrow> (r, c) \<noteq> dst \<longrightarrow>
                      cell b2 r c = cell promotion_board r c)"
    by blast
  from each obtain p b2 where
    p: "cell promotion_board 1 0 = Inr (Some p)"
    and sim: "simulate promotion_board (1, 0) (0, 0) = Inr b2"
    and mem: "((1, 0), (0, 0)) \<in> set ls \<longleftrightarrow> is_in_check b2 White = Inr False"
    and dst: "cell b2 0 0 = Inr (Some (if kind p = Pawn then Piece White Queen else p))"
    and src: "cell b2 1 0 = Inr None"
    by auto
  from p pawn have "p = Piece White Pawn" by simp
  with dst have q: "cell b2 0 0 = Inr (Some (Piece White Queen))" by simp
  from sim safe mem have "((1, 0), (0, 0)) \<in> set ls" by simp
  with wf ps ls sim q src show ?thesis by (simp add: look_def)
qed

section \<open>King moves\<close>

lemma set_king_deltas:
  "set king_deltas = {(dr, dc). \<bar>dr\<bar> \<le> 1 \<and> \<bar>dc\<bar> \<le> 1 \<and> (dr, dc) \<noteq> (0, 0)}"
proof -
  have "\<bar>x\<bar> \<le> 1 \<longleftrightarrow> x = -1 \<or> x = 0 \<or> x = 1" for x :: int by auto
  then show ?thesis by (auto simp: king_deltas_def)
qed

lemma distinct_map_filter:
  "distinct xs \<Longrightarrow> inj_on h (set xs) \<Longrightarrow> distinct (map h (filter P xs))"
  by (simp add: distinct_map inj_on_def)

lemma concat_map_if: "concat (map (\<lambda>x. if P x then [h x] else []) xs) = map h (filter P xs)"
  by (induction xs) simp_all

lemma king_moves_run:
  assumes wf: "wf_board b"
  shows "king_moves b r c col =
     Inr (map (\<lambda>(dr, dc). ((r, c), (r + dr, c + dc)))
            (filter (\<lambda>(dr, dc). inside (r + dr) (c + dc) \<and>
                       empty_or_enemy (piece_at b (r + dr) (c + dc)) col \<and>
                       is_square_attacked b (r + dr) (c + dc) (opponent col) = Inr False)
               king_deltas))"
proof -
  define P where "P = (\<lambda>(dr, dc). inside (r + dr) (c + dc) \<and>
                       empty_or_enemy (piece_at b (r + dr) (c + dc)) col \<and>
                       is_square_attacked b (r + dr) (c + dc) (opponent col) = Inr False)"
  define h where "h = (\<lambda>(dr, dc). ((r, c), (r + dr, c + dc)))"
  have att: "is_square_attacked b x y (opponent col) = Inr True
      \<or> is_square_attacked b x y (opponent col) = Inr False" for x y
    using is_square_attacked_total [OF wf, of x y "opponent col"] by auto
  have "king_moves b r c col = Inr (concat (map (\<lambda>d. if P d then [h d] else []) king_deltas))"
    unfolding king_moves_def
  proof (rule collect_pure)
    fix d assume "d \<in> set king_deltas"
    obtain dr dc where d: "d = (dr, dc)" by (cases d)
    show "(case d of (dr, dc) \<Rightarrow> let nr = r + dr; nc = c + dc
                   in if inside nr nc then
                        fbind (cell b nr nc) (\<lambda>t.
                          if empty_or_enemy t col then
                            fbind (is_square_attacked b nr nc (opponent col)) (\<lambda>att.
                              Inr (if \<not> att then [((r, c), (nr, nc))] else []))
                          else Inr [])
                      else Inr []) = Inr (if P d then [h d] else [])"
      using att [of "r + dr" "c + dc"]
      by (auto simp: d P_def h_def Let_def cell_inside [OF wf])
  qed
  then show ?thesis
    by (simp add: concat_map_if P_def h_def)
qed

text \<open>
  What \<open>king_moves\<close> returns, in terms of the routine it calls: each once, exactly the
  moves from \<open>(r, c)\<close> to a square that is one of its eight neighbours, is on the board, is
  empty or holds a piece of the other colour, and for which \<open>is_square_attacked\<close> by the
  opponent returns \<open>False\<close> on the board as it stands.
\<close>

lemma king_moves_exact:
  assumes wf: "wf_board b"
  shows "\<exists>ms. king_moves b r c col = Inr ms \<and> distinct ms \<and>
           (\<forall>m. m \<in> set ms \<longleftrightarrow>
              (\<exists>nr nc t. m = ((r, c), (nr, nc)) \<and> (nr, nc) \<noteq> (r, c) \<and>
                 \<bar>nr - r\<bar> \<le> 1 \<and> \<bar>nc - c\<bar> \<le> 1 \<and>
                 cell b nr nc = Inr t \<and> empty_or_enemy t col \<and>
                 is_square_attacked b nr nc (opponent col) = Inr False))"
proof -
  define P where "P = (\<lambda>(dr, dc). inside (r + dr) (c + dc) \<and>
                       empty_or_enemy (piece_at b (r + dr) (c + dc)) col \<and>
                       is_square_attacked b (r + dr) (c + dc) (opponent col) = Inr False)"
  define h where "h = (\<lambda>(dr :: int, dc :: int). ((r, c), (r + dr, c + dc)))"
  define ms where "ms = map h (filter P king_deltas)"
  have run: "king_moves b r c col = Inr ms"
    unfolding ms_def P_def h_def by (rule king_moves_run [OF wf])
  have "distinct king_deltas" by (simp add: king_deltas_def)
  moreover have "inj_on h (set king_deltas)" by (auto simp: inj_on_def h_def)
  ultimately have dist: "distinct ms"
    unfolding ms_def by (rule distinct_map_filter)
  have mem: "m \<in> set ms \<longleftrightarrow>
              (\<exists>nr nc t. m = ((r, c), (nr, nc)) \<and> (nr, nc) \<noteq> (r, c) \<and>
                 \<bar>nr - r\<bar> \<le> 1 \<and> \<bar>nc - c\<bar> \<le> 1 \<and>
                 cell b nr nc = Inr t \<and> empty_or_enemy t col \<and>
                 is_square_attacked b nr nc (opponent col) = Inr False)" for m
  proof
    assume "m \<in> set ms"
    then obtain dr dc where d: "(dr, dc) \<in> set king_deltas" "P (dr, dc)" "m = h (dr, dc)"
      unfolding ms_def by auto
    from d(1) have "\<bar>dr\<bar> \<le> 1" "\<bar>dc\<bar> \<le> 1" "(dr, dc) \<noteq> (0, 0)"
      by (simp_all add: set_king_deltas)
    with d(2,3) show "\<exists>nr nc t. m = ((r, c), (nr, nc)) \<and> (nr, nc) \<noteq> (r, c) \<and>
                 \<bar>nr - r\<bar> \<le> 1 \<and> \<bar>nc - c\<bar> \<le> 1 \<and>
                 cell b nr nc = Inr t \<and> empty_or_enemy t col \<and>
                 is_square_attacked b nr nc (opponent col) = Inr False"
      by (intro exI [of _ "r + dr"] exI [of _ "c + dc"] exI [of _ "piece_at b (r + dr) (c + dc)"])
         (auto simp: P_def h_def cell_inside [OF wf])
  next
    assume "\<exists>nr nc t. m = ((r, c), (nr, nc)) \<and> (nr, nc) \<noteq> (r, c) \<and>
                 \<bar>nr - r\<bar> \<le> 1 \<and> \<bar>nc - c\<bar> \<le> 1 \<and>
                 cell b nr nc = Inr t \<and> empty_or_enemy t col \<and>
                 is_square_attacked b nr nc (opponent col) = Inr False"
    then obtain nr nc t where m: "m = ((r, c), (nr, nc))" and ne: "(nr, nc) \<noteq> (r, c)"
      and near: "\<bar>nr - r\<bar> \<le> 1" "\<bar>nc - c\<bar> \<le> 1"
      and t: "cell b nr nc = Inr t" "empty_or_enemy t col"
      and safe: "is_square_attacked b nr nc (opponent col) = Inr False" by blast
    from t(1) have ins: "inside nr nc" and pa: "piece_at b nr nc = t"
      by (simp_all add: cell_eq_Inr [OF wf])
    have d: "(nr - r, nc - c) \<in> set king_deltas"
      using ne near by (auto simp: set_king_deltas)
    have "P (nr - r, nc - c)" using ins pa t(2) safe by (simp add: P_def)
    moreover have "m = h (nr - r, nc - c)" by (simp add: m h_def)
    ultimately show "m \<in> set ms" using d unfolding ms_def by (auto intro!: image_eqI)
  qed
  from run dist mem show ?thesis by blast
qed

text \<open>
  C8: the claim fails on the code. The black pawn of \<open>(2, 3)\<close> captures onto \<open>(3, 2)\<close> and
  \<open>(3, 4)\<close>, but the pawn scan of \<open>is_square_attacked\<close> looks on the wrong row, so \<open>(3, 4)\<close> is
  not reported as attacked by Black and \<open>king_moves\<close> (and \<open>generate_legal_moves\<close>) return
  the move of the white king from \<open>(4, 4)\<close> onto it. Once that move is made the pawn has
  the capture of the king among its moves, and \<open>is_in_check\<close> still answers \<open>False\<close>.
\<close>

theorem king_steps_onto_pawn_capture_square:
  "king_moves king_pawn_board 4 4 White =
     Inr [((4, 4), (3, 3)), ((4, 4), (3, 4)), ((4, 4), (3, 5)), ((4, 4), (4, 3)),
          ((4, 4), (4, 5)), ((4, 4), (5, 3)), ((4, 4), (5, 4)), ((4, 4), (5, 5))] \<and>
   is_square_attacked king_pawn_board 3 4 Black = Inr False \<and>
   generate_legal_moves king_pawn_board White =
     Inr [((4, 4), (3, 3)), ((4, 4), (3, 4)), ((4, 4), (3, 5)), ((4, 4), (4, 3)),
          ((4, 4), (4, 5)), ((4, 4), (5, 3)), ((4, 4), (5, 4)), ((4, 4), (5, 5))] \<and>
   fbind (make_move king_pawn_board (4, 4) (3, 4)) (\<lambda>b. pawn_moves b 2 3 Black) =
     Inr [((2, 3), (3, 3)), ((2, 3), (3, 4))] \<and>
   fbind (make_move king_pawn_board (4, 4) (3, 4)) (\<lambda>b. is_in_check b White) = Inr False"
  by code_simp

section \<open>Sliding pieces\<close>

lemma queen_dir_unique:
  fixes dr dc dr' dc' :: int and k k' :: nat
  assumes "(dr, dc) \<in> set (diagonal_deltas @ straight_deltas)"
    and "(dr', dc') \<in> set (diagonal_deltas @ straight_deltas)"
    and "int k * dr = int k' * dr'" and "int k * dc = int k' * dc'"
    and "1 \<le> k" and "1 \<le> k'"
  shows "dr = dr' \<and> dc = dc' \<and> k = k'"
  using assms by (auto simp: diagonal_deltas_def straight_deltas_def)

lemma distinct_concat_map:
  "distinct xs \<Longrightarrow> (\<And>x. x \<in> set xs \<Longrightarrow> distinct (g x)) \<Longrightarrow>
   (\<And>x y. x \<in> set xs \<Longrightarrow> y \<in> set xs \<Longrightarrow> x \<noteq> y \<Longrightarrow> set (g x) \<inter> set (g y) = {}) \<Longrightarrow>
   distinct (concat (map g xs))"
proof (induction xs)
  case Nil
  then show ?case by simp
next
  case (Cons x xs)
  have "set (g x) \<inter> set (g y) = {}" if "y \<in> set xs" for y
    using Cons.prems(1) that by (intro Cons.prems(3)) auto
  then have "set (g x) \<inter> \<Union> (set ` g ` set xs) = {}" by blast
  moreover have "distinct (concat (map g xs))"
    using Cons.prems by (intro Cons.IH) auto
  ultimately show ?case using Cons.prems(2) [of x] by simp
qed

lemma ray_moves_list:
  assumes wf: "wf_board b" and nz: "(0, 0) \<notin> set ds"
  shows "\<exists>g. ray_moves b r c col ds = Inr (concat (map g ds)) \<and>
           (\<forall>d \<in> set ds. distinct (g d) \<and>
              (\<forall>m. m \<in> set (g d) \<longleftrightarrow>
                 (\<exists>n. target b col (r + fst d) (c + snd d) (fst d) (snd d) n \<and>
                      m = ((r, c), (r + fst d + int n * fst d, c + snd d + int n * snd d)))))"
proof -
  define f where "f = (\<lambda>(dr, dc). ray b r c col dr dc (r + dr) (c + dc))"
  define g where "g = (\<lambda>d. projr (f d))"
  have ray_d: "\<exists>ms. f d = Inr ms \<and> distinct ms \<and>
      (\<forall>m. m \<in> set ms \<longleftrightarrow>
           (\<exists>n. target b col (r + fst d) (c + snd d) (fst d) (snd d) n \<and>
                m = ((r, c), (r + fst d + int n * fst d, c + snd d + int n * snd d))))"
    if "d \<in> set ds" for d
  proof -
    obtain dr dc where d: "d = (dr, dc)" by (cases d)
    from that nz have "(dr, dc) \<noteq> (0, 0)" unfolding d by metis
    from ray_wf [OF wf this, of r c col "r + dr" "c + dc"]
    show ?thesis unfolding f_def d by simp
  qed
  have run1: "f d = Inr (g d)" if "d \<in> set ds" for d
    using ray_d [OF that] by (auto simp: g_def)
  have "collect f ds = Inr (concat (map g ds))"
    by (rule collect_pure) (rule run1)
  then have run: "ray_moves b r c col ds = Inr (concat (map g ds))"
    by (simp add: ray_moves_def f_def)
  have each: "distinct (g d) \<and>
              (\<forall>m. m \<in> set (g d) \<longleftrightarrow>
                 (\<exists>n. target b col (r + fst d) (c + snd d) (fst d) (snd d) n \<and>
                      m = ((r, c), (r + fst d + int n * fst d, c + snd d + int n * snd d))))"
    if "d \<in> set ds" for d
  proof -
    from ray_d [OF that] obtain ms where ms: "f d = Inr ms" and rest: "distinct ms \<and>
      (\<forall>m. m \<in> set ms \<longleftrightarrow>
           (\<exists>n. target b col (r + fst d) (c + snd d) (fst d) (snd d) n \<and>
                m = ((r, c), (r + fst d + int n * fst d, c + snd d + int n * snd d))))"
      by blast
    from ms have "g d = ms" by (simp add: g_def)
    with rest show ?thesis by simp
  qed
  from run each show ?thesis by blast
qed

lemma target_iff_open:
  assumes wf: "wf_board b"
  shows "target b col (r + dr) (c + dc) dr dc n \<longleftrightarrow>
           (\<forall>j \<in> {1..<Suc n}. cell b (r + int j * dr) (c + int j * dc) = Inr None) \<and>
           (\<exists>t. cell b (r + int (Suc n) * dr) (c + int (Suc n) * dc) = Inr t \<and>
                empty_or_enemy t col)"
proof -
  have shift: "r + dr + int j * dr = r + int (Suc j) * dr"
    "c + dc + int j * dc = c + int (Suc j) * dc" for j
    by (simp_all add: algebra_simps)
  have "clear_run b (r + dr) (c + dc) dr dc n \<longleftrightarrow>
        (\<forall>j<n. cell b (r + int (Suc j) * dr) (c + int (Suc j) * dc) = Inr None)"
    unfolding clear_run_def shift by (simp add: cell_eq_Inr [OF wf])
  also have "\<dots> \<longleftrightarrow> (\<forall>j \<in> {1..<Suc n}. cell b (r + int j * dr) (c + int j * dc) = Inr None)"
  proof
    assume a: "\<forall>j<n. cell b (r + int (Suc j) * dr) (c + int (Suc j) * dc) = Inr None"
    show "\<forall>j \<in> {1..<Suc n}. cell b (r + int j * dr) (c + int j * dc) = Inr None"
    proof
      fix j assume "j \<in> {1..<Suc n}"
      then obtain i where "j = Suc i" "i < n" by (cases j) auto
      with a show "cell b (r + int j * dr) (c + int j * dc) = Inr None" by blast
    qed
  next
    assume a: "\<forall>j \<in> {1..<Suc n}. cell b (r + int j * dr) (c + int j * dc) = Inr None"
    show "\<forall>j<n. cell b (r + int (Suc j) * dr) (c + int (Suc j) * dc) = Inr None"
    proof (intro allI impI)
      fix j assume "j < n"
      then have "Suc j \<in> {1..<Suc n}" by simp
      with a show "cell b (r + int (Suc j) * dr) (c + int (Suc j) * dc) = Inr None" by blast
    qed
  qed
  finally have cr: "clear_run b (r + dr) (c + dc) dr dc n \<longleftrightarrow>
      (\<forall>j \<in> {1..<Suc n}. cell b (r + int j * dr) (c + int j * dc) = Inr None)" .
  have "inside (r + int (Suc n) * dr) (c + int (Suc n) * dc) \<and>
        empty_or_enemy (piece_at b (r + int (Suc n) * dr) (c + int (Suc n) * dc)) col \<longleftrightarrow>
        (\<exists>t. cell b (r + int (Suc n) * dr) (c + int (Suc n) * dc) = Inr t \<and> empty_or_enemy t col)"
    by (auto simp: cell_eq_Inr [OF wf])
  with cr show ?thesis
    unfolding target_def shift by blast
qed

lemma sliding_general:
  assumes wf: "wf_board b"
    and sub: "set ds \<subseteq> set (diagonal_deltas @ straight_deltas)"
    and dist: "distinct ds" and d: "(dr, dc) \<in> set ds"
  shows "\<exists>ms. ray_moves b r c col ds = Inr ms \<and> distinct ms \<and>
           (\<forall>m \<in> set ms. fst m = (r, c)) \<and>
           (\<forall>k. 1 \<le> k \<longrightarrow>
              (((r, c), (r + int k * dr, c + int k * dc)) \<in> set ms \<longleftrightarrow>
                 (\<forall>j \<in> {1..<k}. cell b (r + int j * dr) (c + int j * dc) = Inr None) \<and>
                 (\<exists>t. cell b (r + int k * dr) (c + int k * dc) = Inr t \<and>
                      empty_or_enemy t col)))"
proof -
  have nz: "(0, 0) \<notin> set ds"
    using sub by (auto simp: diagonal_deltas_def straight_deltas_def)
  from ray_moves_list [OF wf nz, of r c col] obtain g where
    run: "ray_moves b r c col ds = Inr (concat (map g ds))"
    and dg: "\<And>d. d \<in> set ds \<Longrightarrow> distinct (g d)"
    and mem: "\<And>d m. d \<in> set ds \<Longrightarrow> m \<in> set (g d) \<longleftrightarrow>
                 (\<exists>n. target b col (r + fst d) (c + snd d) (fst d) (snd d) n \<and>
                      m = ((r, c), (r + fst d + int n * fst d, c + snd d + int n * snd d)))"
    by blast
  have on_ray: "d' = (dr', dc') \<and> Suc n = k"
    if "d' \<in> set ds" "(dr', dc') \<in> set ds" "1 \<le> k"
      "r + fst d' + int n * fst d' = r + int k * dr'"
      "c + snd d' + int n * snd d' = c + int k * dc'" for d' dr' dc' n k
  proof -
    have "int (Suc n) * fst d' = int k * dr'" "int (Suc n) * snd d' = int k * dc'"
      using that(4,5) by (simp_all add: algebra_simps)
    moreover have "(fst d', snd d') \<in> set (diagonal_deltas @ straight_deltas)"
      "(dr', dc') \<in> set (diagonal_deltas @ straight_deltas)"
      using that(1,2) sub by auto
    ultimately have "fst d' = dr' \<and> snd d' = dc' \<and> Suc n = k"
      using that(3) by (intro queen_dir_unique) simp_all
    then show ?thesis by (cases d') simp
  qed
  have disj: "set (g x) \<inter> set (g y) = {}"
    if xs: "x \<in> set ds" and ys: "y \<in> set ds" and ne: "x \<noteq> y" for x y
  proof (rule ccontr)
    assume "set (g x) \<inter> set (g y) \<noteq> {}"
    then obtain m where "m \<in> set (g x)" "m \<in> set (g y)" by blast
    then obtain n n' where
      "m = ((r, c), (r + fst x + int n * fst x, c + snd x + int n * snd x))"
      "m = ((r, c), (r + fst y + int n' * fst y, c + snd y + int n' * snd y))"
      unfolding mem [OF xs] mem [OF ys] by blast
    then have eq: "r + fst x + int n * fst x = r + int (Suc n') * fst y"
      "c + snd x + int n * snd x = c + int (Suc n') * snd y"
      by (simp_all add: algebra_simps)
    have "(fst y, snd y) \<in> set ds" using ys by simp
    from on_ray [OF xs this _ eq] have "x = (fst y, snd y)" by simp
    with ne show False by simp
  qed
  have distinct_all: "distinct (concat (map g ds))"
    using dist dg disj by (rule distinct_concat_map)
  have src: "fst m = (r, c)" if "m \<in> set (concat (map g ds))" for m
  proof -
    from that obtain d' where d': "d' \<in> set ds" and "m \<in> set (g d')" by auto
    then show ?thesis unfolding mem [OF d'] by auto
  qed
  have iff: "((r, c), (r + int k * dr, c + int k * dc)) \<in> set (concat (map g ds)) \<longleftrightarrow>
                 (\<forall>j \<in> {1..<k}. cell b (r + int j * dr) (c + int j * dc) = Inr None) \<and>
                 (\<exists>t. cell b (r + int k * dr) (c + int k * dc) = Inr t \<and>
                      empty_or_enemy t col)" if k: "1 \<le> k" for k
  proof -
    obtain n where n: "k = Suc n" using k by (cases k) auto
    have "((r, c), (r + int k * dr, c + int k * dc)) \<in> set (concat (map g ds)) \<longleftrightarrow>
          target b col (r + dr) (c + dc) dr dc n"
    proof
      assume "((r, c), (r + int k * dr, c + int k * dc)) \<in> set (concat (map g ds))"
      then obtain d' where d': "d' \<in> set ds"
        and "((r, c), (r + int k * dr, c + int k * dc)) \<in> set (g d')" by auto
      then obtain n' where t: "target b col (r + fst d') (c + snd d') (fst d') (snd d') n'"
        and eq: "r + fst d' + int n' * fst d' = r + int k * dr"
          "c + snd d' + int n' * snd d' = c + int k * dc"
        unfolding mem [OF d'] by auto
      from on_ray [OF d' d k eq] have "d' = (dr, dc)" "n' = n" using n by simp_all
      with t show "target b col (r + dr) (c + dc) dr dc n" by simp
    next
      assume "target b col (r + dr) (c + dc) dr dc n"
      then have "((r, c), (r + int k * dr, c + int k * dc)) \<in> set (g (dr, dc))"
        unfolding mem [OF d] n by (auto simp: algebra_simps)
      with d show "((r, c), (r + int k * dr, c + int k * dc)) \<in> set (concat (map g ds))"
        by auto
    qed
    then show ?thesis
      unfolding target_iff_open [OF wf] n .
  qed
  from run distinct_all src iff show ?thesis by blast
qed

text \<open>
  C7: the moves of a bishop, rook or queen from \<open>(r, c)\<close> are returned once each, and for
  each of its directions \<open>(dr, dc)\<close> the \<open>k\<close>-th square of that ray is a destination exactly
  when the squares before it on the ray are on the board and empty and the square itself
  is on the board and empty or held by the other colour. So a ray yields its empty
  squares up to the first occupied one, that one too when it is an opposing piece and
  not when it is an own piece, and nothing beyond it.
\<close>

theorem sliding_moves_stop_at_first_piece:
  assumes wf: "wf_board b"
    and piece: "(f, ds) \<in> {(bishop_moves, diagonal_deltas), (rook_moves, straight_deltas),
                        (queen_moves, diagonal_deltas @ straight_deltas)}"
    and d: "(dr, dc) \<in> set ds"
  shows "\<exists>ms. f b r c col = Inr ms \<and> distinct ms \<and>
           (\<forall>m \<in> set ms. fst m = (r, c)) \<and>
           (\<forall>k. 1 \<le> k \<longrightarrow>
              (((r, c), (r + int k * dr, c + int k * dc)) \<in> set ms \<longleftrightarrow>
                 (\<forall>j \<in> {1..<k}. cell b (r + int j * dr) (c + int j * dc) = Inr None) \<and>
                 (\<exists>t. cell b (r + int k * dr) (c + int k * dc) = Inr t \<and>
                      empty_or_enemy t col)))"
proof -
  from piece consider
      (bishop) "f = bishop_moves" "ds = diagonal_deltas"
    | (rook) "f = rook_moves" "ds = straight_deltas"
    | (queen) "f = queen_moves" "ds = diagonal_deltas @ straight_deltas"
    by blast
  then have run: "f b r c col = ray_moves b r c col ds"
    by cases
      (simp_all add: bishop_moves_def rook_moves_def queen_moves_def diagonal_deltas_def
        straight_deltas_def)
  have dirs: "distinct (diagonal_deltas @ straight_deltas)"
    by (simp add: diagonal_deltas_def straight_deltas_def)
  from piece have "ds = diagonal_deltas \<or> ds = straight_deltas \<or>
      ds = diagonal_deltas @ straight_deltas" by blast
  with dirs have "set ds \<subseteq> set (diagonal_deltas @ straight_deltas)" "distinct ds"
    by auto
  from sliding_general [OF wf this d, of r c col] show ?thesis
    unfolding run .
qed

theorem sliding_moves_stop_at_first_piece_witness:
  "wf_board rays_board \<and>
   (rook_moves, straight_deltas) \<in> {(bishop_moves, diagonal_deltas), (rook_moves, straight_deltas),
                        (queen_moves, diagonal_deltas @ straight_deltas)} \<and>
   (-1, 0) \<in> set straight_deltas \<and> (0, 1) \<in> set straight_deltas \<and>
   rook_moves rays_board 4 4 White =
     Inr [((4, 4), (3, 4)), ((4, 4), (2, 4)),
          ((4, 4), (5, 4)), ((4, 4), (6, 4)), ((4, 4), (7, 4)),
          ((4, 4), (4, 3)), ((4, 4), (4, 2)), ((4, 4), (4, 1)), ((4, 4), (4, 0)),
          ((4, 4), (4, 5))] \<and>
   (\<exists>ms. rook_moves rays_board 4 4 White = Inr ms \<and> distinct ms \<and>
         ((4, 4), (2, 4)) \<in> set ms \<and> ((4, 4), (1, 4)) \<notin> set ms \<and>
         ((4, 4), (4, 5)) \<in> set ms \<and> ((4, 4), (4, 6)) \<notin> set ms)"
proof -
  have wf: "wf_board rays_board" by code_simp
  have piece: "(rook_moves, straight_deltas) \<in>
      {(bishop_moves, diagonal_deltas), (rook_moves, straight_deltas),
       (queen_moves, diagonal_deltas @ straight_deltas)}" by simp
  have up: "(-1, 0) \<in> set straight_deltas" and right: "(0, 1) \<in> set straight_deltas"
    by (simp_all add: straight_deltas_def)
  have run: "rook_moves rays_board 4 4 White =
     Inr [((4, 4), (3, 4)), ((4, 4), (2, 4)),
          ((4, 4), (5, 4)), ((4, 4), (6, 4)), ((4, 4), (7, 4)),
          ((4, 4), (4, 3)), ((4, 4), (4, 2)), ((4, 4), (4, 1)), ((4, 4), (4, 0)),
          ((4, 4), (4, 5))]" by code_simp
  have c34: "cell rays_board 3 4 = Inr None"
    and c24: "cell rays_board 2 4 = Inr (Some (Piece Black Pawn))"
    and c45: "cell rays_board 4 5 = Inr None"
    and c46: "cell rays_board 4 6 = Inr (Some (Piece White Pawn))"
    by code_simp+
  have ivl: "{Suc 0..<2} = {Suc 0}" "{Suc 0..<3} = {Suc 0, 2}" by auto
  from sliding_moves_stop_at_first_piece [OF wf piece up, of 4 4 White] obtain ms where
    ms: "rook_moves rays_board 4 4 White = Inr ms" "distinct ms"
    and north: "\<And>k. 1 \<le> k \<Longrightarrow>
              (((4, 4), (4 + int k * (-1), 4 + int k * 0)) \<in> set ms \<longleftrightarrow>
                 (\<forall>j \<in> {1..<k}. cell rays_board (4 + int j * (-1)) (4 + int j * 0) = Inr None) \<and>
                 (\<exists>t. cell rays_board (4 + int k * (-1)) (4 + int k * 0) = Inr t \<and>
                      empty_or_enemy t White))"
    by blast
  from sliding_moves_stop_at_first_piece [OF wf piece right, of 4 4 White] ms(1)
  have east: "\<And>k. 1 \<le> k \<Longrightarrow>
              (((4, 4), (4 + int k * 0, 4 + int k * 1)) \<in> set ms \<longleftrightarrow>
                 (\<forall>j \<in> {1..<k}. cell rays_board (4 + int j * 0) (4 + int j * 1) = Inr None) \<and>
                 (\<exists>t. cell rays_board (4 + int k * 0) (4 + int k * 1) = Inr t \<and>
                      empty_or_enemy t White))"
    by auto
  have "((4, 4), (2, 4)) \<in> set ms"
    using north [of 2] by (simp add: ivl c34 c24 empty_or_enemy_def)
  moreover have "((4, 4), (1, 4)) \<notin> set ms"
    using north [of 3] by (simp add: ivl c34 c24)
  moreover have "((4, 4), (4, 5)) \<in> set ms"
    using east [of 1] by (simp add: ivl c45 empty_or_enemy_def)
  moreover have "((4, 4), (4, 6)) \<notin> set ms"
    using east [of 2] by (simp add: ivl c45 c46 empty_or_enemy_def)
  ultimately show ?thesis
    using wf piece up right run ms by blast
qed

section \<open>Attack scans and generation\<close>

lemma ray_attack_sees:
  assumes wf: "wf_board b" and nz: "(dr, dc) \<noteq> (0, 0)"
  shows "ray_attack b by k dr dc (r + dr) (c + dc) = Inr (\<exists>n. sees b by k r c dr dc n)"
proof -
  have shift: "r + dr + int n * dr = r + int (Suc n) * dr"
    "c + dc + int n * dc = c + int (Suc n) * dc" for n
    by (simp_all add: algebra_simps)
  show ?thesis
    unfolding ray_attack_wf [OF wf nz] sees_def shift ..
qed

lemma straight_attack_wf:
  assumes wf: "wf_board b"
  shows "straight_attack b r c by =
           Inr (\<exists>(dr, dc) \<in> set straight_deltas. \<exists>n. sees b by Rook r c dr dc n)"
  unfolding straight_attack_def
proof (rule first_hit_pure [THEN trans])
  fix d assume "d \<in> set straight_deltas"
  then have "d \<noteq> (0, 0)" by (auto simp: straight_deltas_def)
  then show "(case d of (dr, dc) \<Rightarrow> ray_attack b by Rook dr dc (r + dr) (c + dc)) =
      Inr (\<exists>n. sees b by Rook r c (fst d) (snd d) n)"
    by (cases d) (simp add: ray_attack_sees [OF wf])
next
  show "Inr (\<exists>d \<in> set straight_deltas. \<exists>n. sees b by Rook r c (fst d) (snd d) n) =
        Inr (\<exists>(dr, dc) \<in> set straight_deltas. \<exists>n. sees b by Rook r c dr dc n)"
    by (simp add: case_prod_beta)
qed

lemma diagonal_attack_wf:
  assumes wf: "wf_board b"
  shows "diagonal_attack b r c by =
           Inr (\<exists>(dr, dc) \<in> set diagonal_deltas. \<exists>n. sees b by Bishop r c dr dc n)"
  unfolding diagonal_attack_def
proof (rule first_hit_pure [THEN trans])
  fix d assume "d \<in> set diagonal_deltas"
  then have "d \<noteq> (0, 0)" by (auto simp: diagonal_deltas_def)
  then show "(case d of (dr, dc) \<Rightarrow> ray_attack b by Bishop dr dc (r + dr) (c + dc)) =
      Inr (\<exists>n. sees b by Bishop r c (fst d) (snd d) n)"
    by (cases d) (simp add: ray_attack_sees [OF wf])
next
  show "Inr (\<exists>d \<in> set diagonal_deltas. \<exists>n. sees b by Bishop r c (fst d) (snd d) n) =
        Inr (\<exists>(dr, dc) \<in> set diagonal_deltas. \<exists>n. sees b by Bishop r c dr dc n)"
    by (simp add: case_prod_beta)
qed

lemma clear_run_between:
  "clear_run b (r + dr) (c + dc) dr dc n \<longleftrightarrow>
     (\<forall>i. 1 \<le> i \<and> i \<le> n \<longrightarrow>
        inside (r + int i * dr) (c + int i * dc) \<and> piece_at b (r + int i * dr) (c + int i * dc) = None)"
proof -
  have shift: "r + dr + int j * dr = r + int (Suc j) * dr"
    "c + dc + int j * dc = c + int (Suc j) * dc" for j
    by (simp_all add: algebra_simps)
  show ?thesis
    unfolding clear_run_def shift
  proof
    assume a: "\<forall>j<n. inside (r + int (Suc j) * dr) (c + int (Suc j) * dc) \<and>
          piece_at b (r + int (Suc j) * dr) (c + int (Suc j) * dc) = None"
    show "\<forall>i. 1 \<le> i \<and> i \<le> n \<longrightarrow>
        inside (r + int i * dr) (c + int i * dc) \<and> piece_at b (r + int i * dr) (c + int i * dc) = None"
    proof (intro allI impI)
      fix i assume "1 \<le> i \<and> i \<le> n"
      then obtain j where j: "i = Suc j" "j < n" by (cases i) auto
      from a [rule_format, OF j(2)]
      show "inside (r + int i * dr) (c + int i * dc) \<and>
          piece_at b (r + int i * dr) (c + int i * dc) = None"
        unfolding j(1) .
    qed
  next
    assume a: "\<forall>i. 1 \<le> i \<and> i \<le> n \<longrightarrow>
        inside (r + int i * dr) (c + int i * dc) \<and> piece_at b (r + int i * dr) (c + int i * dc) = None"
    show "\<forall>j<n. inside (r + int (Suc j) * dr) (c + int (Suc j) * dc) \<and>
          piece_at b (r + int (Suc j) * dr) (c + int (Suc j) * dc) = None"
    proof (intro allI impI)
      fix j assume "j < n"
      then have "1 \<le> Suc j \<and> Suc j \<le> n" by simp
      from a [rule_format, OF this]
      show "inside (r + int (Suc j) * dr) (c + int (Suc j) * dc) \<and>
          piece_at b (r + int (Suc j) * dr) (c + int (Suc j) * dc) = None" .
    qed
  qed
qed

lemma clear_run_back:
  "clear_run b (r + int n * dr) (c + int n * dc) (- dr) (- dc) n \<longleftrightarrow>
     (\<forall>i. 1 \<le> i \<and> i \<le> n \<longrightarrow>
        inside (r + int i * dr) (c + int i * dc) \<and> piece_at b (r + int i * dr) (c + int i * dc) = None)"
proof -
  have bk: "r + int n * dr + int j * (- dr) = r + int (n - j) * dr"
    "c + int n * dc + int j * (- dc) = c + int (n - j) * dc" if "j < n" for j
    using that by (simp_all add: algebra_simps of_nat_diff)
  have "clear_run b (r + int n * dr) (c + int n * dc) (- dr) (- dc) n \<longleftrightarrow>
        (\<forall>j<n. inside (r + int (n - j) * dr) (c + int (n - j) * dc) \<and>
               piece_at b (r + int (n - j) * dr) (c + int (n - j) * dc) = None)"
    unfolding clear_run_def
  proof (intro iffI allI impI)
    fix j assume j: "j < n"
    assume "\<forall>j<n. inside (r + int n * dr + int j * (- dr)) (c + int n * dc + int j * (- dc)) \<and>
               piece_at b (r + int n * dr + int j * (- dr)) (c + int n * dc + int j * (- dc)) = None"
    from this [rule_format, OF j]
    show "inside (r + int (n - j) * dr) (c + int (n - j) * dc) \<and>
               piece_at b (r + int (n - j) * dr) (c + int (n - j) * dc) = None"
      unfolding bk [OF j] .
  next
    fix j assume j: "j < n"
    assume "\<forall>j<n. inside (r + int (n - j) * dr) (c + int (n - j) * dc) \<and>
               piece_at b (r + int (n - j) * dr) (c + int (n - j) * dc) = None"
    from this [rule_format, OF j]
    show "inside (r + int n * dr + int j * (- dr)) (c + int n * dc + int j * (- dc)) \<and>
               piece_at b (r + int n * dr + int j * (- dr)) (c + int n * dc + int j * (- dc)) = None"
      unfolding bk [OF j] .
  qed
  also have "\<dots> \<longleftrightarrow> (\<forall>i. 1 \<le> i \<and> i \<le> n \<longrightarrow>
        inside (r + int i * dr) (c + int i * dc) \<and> piece_at b (r + int i * dr) (c + int i * dc) = None)"
  proof
    assume a: "\<forall>j<n. inside (r + int (n - j) * dr) (c + int (n - j) * dc) \<and>
               piece_at b (r + int (n - j) * dr) (c + int (n - j) * dc) = None"
    show "\<forall>i. 1 \<le> i \<and> i \<le> n \<longrightarrow>
        inside (r + int i * dr) (c + int i * dc) \<and> piece_at b (r + int i * dr) (c + int i * dc) = None"
    proof (intro allI impI)
      fix i assume i: "1 \<le> i \<and> i \<le> n"
      then have "n - i < n" "n - (n - i) = i" by simp_all
      with a [rule_format, of "n - i"]
      show "inside (r + int i * dr) (c + int i * dc) \<and>
          piece_at b (r + int i * dr) (c + int i * dc) = None" by simp
    qed
  next
    assume a: "\<forall>i. 1 \<le> i \<and> i \<le> n \<longrightarrow>
        inside (r + int i * dr) (c + int i * dc) \<and> piece_at b (r + int i * dr) (c + int i * dc) = None"
    show "\<forall>j<n. inside (r + int (n - j) * dr) (c + int (n - j) * dc) \<and>
               piece_at b (r + int (n - j) * dr) (c + int (n - j) * dc) = None"
    proof (intro allI impI)
      fix j assume "j < n"
      then have "1 \<le> n - j \<and> n - j \<le> n" by simp
      from a [rule_format, OF this]
      show "inside (r + int (n - j) * dr) (c + int (n - j) * dc) \<and>
               piece_at b (r + int (n - j) * dr) (c + int (n - j) * dc) = None" .
    qed
  qed
  finally show ?thesis .
qed

lemma clear_run_rev:
  "clear_run b (r + dr) (c + dc) dr dc n \<longleftrightarrow>
   clear_run b (r + int n * dr) (c + int n * dc) (- dr) (- dc) n"
  unfolding clear_run_between clear_run_back ..

lemma candidate_iff:
  assumes wf: "wf_board b" and ps: "generate_pseudo_legal_moves b col = Inr ps"
  shows "((sr, sc), dst) \<in> set ps \<longleftrightarrow>
         inside sr sc \<and> (\<exists>ms. moves_from b col (sr, sc) = Inr ms \<and> ((sr, sc), dst) \<in> set ms)"
proof -
  from generate_pseudo_legal_moves_wf [OF wf, of col] obtain ms0 where
    ms0: "generate_pseudo_legal_moves b col = Inr ms0" and
    mem0: "\<And>m. m \<in> set ms0 \<longleftrightarrow>
              (\<exists>r c ms'. inside r c \<and> moves_from b col (r, c) = Inr ms' \<and> m \<in> set ms')"
    by blast
  from ms0 ps have "ms0 = ps" by simp
  note mem = mem0 [unfolded this]
  show ?thesis
  proof
    assume "((sr, sc), dst) \<in> set ps"
    then obtain r c ms' where ins: "inside r c"
      and ms': "moves_from b col (r, c) = Inr ms'" "((sr, sc), dst) \<in> set ms'"
      unfolding mem by blast
    from moves_from_wf [OF wf ins, of col] ms' have "(sr, sc) = (r, c)" by auto
    with ins ms' show "inside sr sc \<and>
        (\<exists>ms. moves_from b col (sr, sc) = Inr ms \<and> ((sr, sc), dst) \<in> set ms)" by auto
  next
    assume "inside sr sc \<and>
        (\<exists>ms. moves_from b col (sr, sc) = Inr ms \<and> ((sr, sc), dst) \<in> set ms)"
    then show "((sr, sc), dst) \<in> set ps" unfolding mem by blast
  qed
qed

lemma moves_from_kind:
  assumes wf: "wf_board b" and ins: "inside r c"
    and p: "piece_at b r c = Some (Piece col k)"
  shows "moves_from b col (r, c) =
        (case k of
           Pawn \<Rightarrow> pawn_moves b r c col
         | Knight \<Rightarrow> knight_moves b r c col
         | Bishop \<Rightarrow> bishop_moves b r c col
         | Rook \<Rightarrow> rook_moves b r c col
         | Queen \<Rightarrow> queen_moves b r c col
         | King \<Rightarrow> king_moves b r c col)"
  using p by (simp add: moves_from_def cell_inside [OF wf ins])

lemma knight_deltas_neg: "(dr, dc) \<in> set knight_deltas \<Longrightarrow> (- dr, - dc) \<in> set knight_deltas"
  by (auto simp: knight_deltas_def)

lemma king_deltas_neg: "(dr, dc) \<in> set king_deltas \<Longrightarrow> (- dr, - dc) \<in> set king_deltas"
  by (auto simp: king_deltas_def)

lemma straight_deltas_neg:
  "(dr, dc) \<in> set straight_deltas \<Longrightarrow> (- dr, - dc) \<in> set straight_deltas"
  by (auto simp: straight_deltas_def)

lemma diagonal_deltas_neg:
  "(dr, dc) \<in> set diagonal_deltas \<Longrightarrow> (- dr, - dc) \<in> set diagonal_deltas"
  by (auto simp: diagonal_deltas_def)

text \<open>Knights: generation against the knight scan.\<close>

lemma knight_capture_iff:
  assumes wf: "wf_board b" and ps: "generate_pseudo_legal_moves b col = Inr ps"
    and ins: "inside r c" and free: "empty_or_enemy (piece_at b r c) col"
  shows "(\<exists>src. (src, (r, c)) \<in> set ps \<and>
              cell b (fst src) (snd src) = Inr (Some (Piece col Knight))) \<longleftrightarrow>
         knight_attack b r c col = Inr True"
proof -
  have gen: "((sr, sc), (r, c)) \<in> set ps \<longleftrightarrow>
        (\<exists>(dr, dc) \<in> set knight_deltas. (r, c) = (sr + dr, sc + dc))"
    if src: "inside sr sc" "piece_at b sr sc = Some (Piece col Knight)" for sr sc
  proof -
    from knight_moves_wf [OF wf, of sr sc col] obtain ms where
      ms: "knight_moves b sr sc col = Inr ms" and
      mem: "\<And>m. m \<in> set ms \<longleftrightarrow>
                (\<exists>(dr, dc) \<in> set knight_deltas.
                   m = ((sr, sc), (sr + dr, sc + dc)) \<and> inside (sr + dr) (sc + dc) \<and>
                   empty_or_enemy (piece_at b (sr + dr) (sc + dc)) col)"
      by blast
    have "((sr, sc), (r, c)) \<in> set ps \<longleftrightarrow> ((sr, sc), (r, c)) \<in> set ms"
      unfolding candidate_iff [OF wf ps] moves_from_kind [OF wf src]
      using src(1) ms by simp
    also have "\<dots> \<longleftrightarrow> (\<exists>(dr, dc) \<in> set knight_deltas. (r, c) = (sr + dr, sc + dc))"
      unfolding mem using ins free by auto
    finally show ?thesis .
  qed
  have scan: "knight_attack b r c col = Inr True \<longleftrightarrow>
      (\<exists>(dr, dc) \<in> set knight_deltas.
            inside (r + dr) (c + dc) \<and> piece_at b (r + dr) (c + dc) = Some (Piece col Knight))"
    unfolding knight_attack_wf [OF wf] by simp
  show ?thesis
    unfolding scan
  proof
    assume "\<exists>src. (src, (r, c)) \<in> set ps \<and>
              cell b (fst src) (snd src) = Inr (Some (Piece col Knight))"
    then obtain sr sc where m: "((sr, sc), (r, c)) \<in> set ps"
      and "cell b sr sc = Inr (Some (Piece col Knight))" by auto
    then have src: "inside sr sc" "piece_at b sr sc = Some (Piece col Knight)"
      by (simp_all add: cell_eq_Inr [OF wf])
    from m obtain dr dc where d: "(dr, dc) \<in> set knight_deltas" "(r, c) = (sr + dr, sc + dc)"
      unfolding gen [OF src] by auto
    then have "r + - dr = sr" "c + - dc = sc" by simp_all
    with src knight_deltas_neg [OF d(1)]
    show "\<exists>(dr, dc) \<in> set knight_deltas.
            inside (r + dr) (c + dc) \<and> piece_at b (r + dr) (c + dc) = Some (Piece col Knight)"
      by (intro bexI [of _ "(- dr, - dc)"]) simp_all
  next
    assume "\<exists>(dr, dc) \<in> set knight_deltas.
            inside (r + dr) (c + dc) \<and> piece_at b (r + dr) (c + dc) = Some (Piece col Knight)"
    then obtain dr dc where d: "(dr, dc) \<in> set knight_deltas"
      and src: "inside (r + dr) (c + dc)" "piece_at b (r + dr) (c + dc) = Some (Piece col Knight)"
      by auto
    have "((r + dr, c + dc), (r, c)) \<in> set ps"
      unfolding gen [OF src]
      using knight_deltas_neg [OF d] by (intro bexI [of _ "(- dr, - dc)"]) simp_all
    moreover have "cell b (r + dr) (c + dc) = Inr (Some (Piece col Knight))"
      using src by (simp add: cell_inside [OF wf])
    ultimately show "\<exists>src. (src, (r, c)) \<in> set ps \<and>
              cell b (fst src) (snd src) = Inr (Some (Piece col Knight))"
      by (intro exI [of _ "(r + dr, c + dc)"]) simp
  qed
qed

text \<open>Kings: generation against the king scan.\<close>

lemma king_capture_iff:
  assumes wf: "wf_board b" and ps: "generate_pseudo_legal_moves b col = Inr ps"
    and ins: "inside r c" and free: "empty_or_enemy (piece_at b r c) col"
  shows "(\<exists>src. (src, (r, c)) \<in> set ps \<and>
              cell b (fst src) (snd src) = Inr (Some (Piece col King))) \<longleftrightarrow>
         king_attack b r c col = Inr True \<and>
         is_square_attacked b r c (opponent col) = Inr False"
proof -
  have gen: "((sr, sc), (r, c)) \<in> set ps \<longleftrightarrow>
        (\<exists>(dr, dc) \<in> set king_deltas. (r, c) = (sr + dr, sc + dc)) \<and>
        is_square_attacked b r c (opponent col) = Inr False"
    if src: "inside sr sc" "piece_at b sr sc = Some (Piece col King)" for sr sc
  proof -
    from king_moves_wf [OF wf, of sr sc col] obtain ms where
      ms: "king_moves b sr sc col = Inr ms" and
      mem: "\<And>m. m \<in> set ms \<longleftrightarrow>
                (\<exists>(dr, dc) \<in> set king_deltas.
                   m = ((sr, sc), (sr + dr, sc + dc)) \<and> inside (sr + dr) (sc + dc) \<and>
                   empty_or_enemy (piece_at b (sr + dr) (sc + dc)) col \<and>
                   is_square_attacked b (sr + dr) (sc + dc) (opponent col) = Inr False)"
      by blast
    have "((sr, sc), (r, c)) \<in> set ps \<longleftrightarrow> ((sr, sc), (r, c)) \<in> set ms"
      unfolding candidate_iff [OF wf ps] moves_from_kind [OF wf src]
      using src(1) ms by simp
    also have "\<dots> \<longleftrightarrow> (\<exists>(dr, dc) \<in> set king_deltas. (r, c) = (sr + dr, sc + dc)) \<and>
        is_square_attacked b r c (opponent col) = Inr False"
      unfolding mem using ins free by auto
    finally show ?thesis .
  qed
  have scan: "king_attack b r c col = Inr True \<longleftrightarrow>
      (\<exists>(dr, dc) \<in> set king_deltas.
            inside (r + dr) (c + dc) \<and> piece_at b (r + dr) (c + dc) = Some (Piece col King))"
    unfolding king_attack_wf [OF wf] by simp
  show ?thesis
    unfolding scan
  proof
    assume "\<exists>src. (src, (r, c)) \<in> set ps \<and>
              cell b (fst src) (snd src) = Inr (Some (Piece col King))"
    then obtain sr sc where m: "((sr, sc), (r, c)) \<in> set ps"
      and "cell b sr sc = Inr (Some (Piece col King))" by auto
    then have src: "inside sr sc" "piece_at b sr sc = Some (Piece col King)"
      by (simp_all add: cell_eq_Inr [OF wf])
    from m obtain dr dc where d: "(dr, dc) \<in> set king_deltas" "(r, c) = (sr + dr, sc + dc)"
      and safe: "is_square_attacked b r c (opponent col) = Inr False"
      unfolding gen [OF src] by auto
    from d have "r + - dr = sr" "c + - dc = sc" by simp_all
    with src king_deltas_neg [OF d(1)]
    have "\<exists>(dr, dc) \<in> set king_deltas.
            inside (r + dr) (c + dc) \<and> piece_at b (r + dr) (c + dc) = Some (Piece col King)"
      by (intro bexI [of _ "(- dr, - dc)"]) simp_all
    then show "(\<exists>(dr, dc) \<in> set king_deltas.
            inside (r + dr) (c + dc) \<and> piece_at b (r + dr) (c + dc) = Some (Piece col King)) \<and>
         is_square_attacked b r c (opponent col) = Inr False"
      using safe by (rule conjI)
  next
    assume a: "(\<exists>(dr, dc) \<in> set king_deltas.
            inside (r + dr) (c + dc) \<and> piece_at b (r + dr) (c + dc) = Some (Piece col King)) \<and>
         is_square_attacked b r c (opponent col) = Inr False"
    then obtain dr dc where d: "(dr, dc) \<in> set king_deltas"
      and src: "inside (r + dr) (c + dc)" "piece_at b (r + dr) (c + dc) = Some (Piece col King)"
      by auto
    from a have safe: "is_square_attacked b r c (opponent col) = Inr False" ..
    have "\<exists>(dr', dc') \<in> set king_deltas. (r, c) = (r + dr + dr', c + dc + dc')"
      using king_deltas_neg [OF d] by (intro bexI [of _ "(- dr, - dc)"]) simp_all
    then have "((r + dr, c + dc), (r, c)) \<in> set ps"
      unfolding gen [OF src] using safe by (rule conjI)
    moreover have "cell b (r + dr) (c + dc) = Inr (Some (Piece col King))"
      using src by (simp add: cell_inside [OF wf])
    ultimately show "\<exists>src. (src, (r, c)) \<in> set ps \<and>
              cell b (fst src) (snd src) = Inr (Some (Piece col King))"
      by (intro exI [of _ "(r + dr, c + dc)"]) simp
  qed
qed

text \<open>Sliding pieces: a ray seen from the target square is the ray walked from the piece.\<close>

lemma sees_imp_target:
  assumes ins: "inside r c" and free: "empty_or_enemy (piece_at b r c) col"
    and sees: "sees b col k r c dr dc n"
  shows "target b col (r + int (Suc n) * dr + - dr) (c + int (Suc n) * dc + - dc) (- dr) (- dc) n \<and>
         (r, c) = (r + int (Suc n) * dr + - dr + int n * - dr,
                   c + int (Suc n) * dc + - dc + int n * - dc)"
proof -
  have base: "r + int (Suc n) * dr + - dr = r + int n * dr"
    "c + int (Suc n) * dc + - dc = c + int n * dc"
    by (simp_all add: algebra_simps)
  have home: "r + int n * dr + int n * - dr = r" "c + int n * dc + int n * - dc = c"
    by simp_all
  from sees have "clear_run b (r + dr) (c + dc) dr dc n" by (simp add: sees_def)
  then have "clear_run b (r + int n * dr) (c + int n * dc) (- dr) (- dc) n"
    by (simp only: clear_run_rev)
  with ins free show ?thesis
    unfolding base target_def home by simp
qed

lemma target_imp_sees:
  assumes src: "inside sr sc" "piece_at b sr sc = Some q" "color q = col"
      "kind q = k \<or> kind q = Queen"
    and t: "target b col' (sr + dr) (sc + dc) dr dc n"
    and at: "(r, c) = (sr + dr + int n * dr, sc + dc + int n * dc)"
  shows "sees b col k r c (- dr) (- dc) n"
proof -
  from at have r: "r = sr + int (Suc n) * dr" and c: "c = sc + int (Suc n) * dc"
    by (simp_all add: algebra_simps)
  have start: "r + - dr = sr + int n * dr" "c + - dc = sc + int n * dc"
    unfolding r c by (simp_all add: algebra_simps)
  have home: "r + int (Suc n) * - dr = sr" "c + int (Suc n) * - dc = sc"
    unfolding r c by simp_all
  from t have "clear_run b (sr + dr) (sc + dc) dr dc n" by (simp add: target_def)
  then have "clear_run b (sr + int n * dr) (sc + int n * dc) (- dr) (- dc) n"
    by (simp only: clear_run_rev)
  with src show ?thesis
    unfolding sees_def start home by simp
qed

lemma slider_gen:
  assumes wf: "wf_board b" and ps: "generate_pseudo_legal_moves b col = Inr ps"
    and src: "inside sr sc" "piece_at b sr sc = Some (Piece col k)"
    and k: "k = Rook \<or> k = Bishop \<or> k = Queen"
  shows "((sr, sc), dst) \<in> set ps \<longleftrightarrow>
         (\<exists>(dr, dc) \<in> set (slide_deltas k). \<exists>n. target b col (sr + dr) (sc + dc) dr dc n \<and>
              dst = (sr + dr + int n * dr, sc + dc + int n * dc))"
proof -
  have nz: "(0, 0) \<notin> set (slide_deltas k)"
    by (auto simp: slide_deltas_def diagonal_deltas_def straight_deltas_def)
  have run: "moves_from b col (sr, sc) = ray_moves b sr sc col (slide_deltas k)"
    unfolding moves_from_kind [OF wf src] using k
    by (auto simp: slide_deltas_def bishop_moves_def rook_moves_def queen_moves_def
        diagonal_deltas_def straight_deltas_def)
  from ray_moves_wf [OF wf nz, of sr sc col] obtain ms where
    ms: "ray_moves b sr sc col (slide_deltas k) = Inr ms" and
    mem: "\<And>m. m \<in> set ms \<longleftrightarrow>
                (\<exists>(dr, dc) \<in> set (slide_deltas k). \<exists>n. target b col (sr + dr) (sc + dc) dr dc n \<and>
                     m = ((sr, sc), (sr + dr + int n * dr, sc + dc + int n * dc)))"
    by blast
  have "((sr, sc), dst) \<in> set ps \<longleftrightarrow> ((sr, sc), dst) \<in> set ms"
    unfolding candidate_iff [OF wf ps] run using src(1) ms by simp
  then show ?thesis
    unfolding mem by simp
qed

lemma slider_capture_iff:
  assumes wf: "wf_board b" and ps: "generate_pseudo_legal_moves b col = Inr ps"
    and ins: "inside r c" and free: "empty_or_enemy (piece_at b r c) col"
  shows "(\<exists>src k. (src, (r, c)) \<in> set ps \<and> (k = Rook \<or> k = Bishop \<or> k = Queen) \<and>
              cell b (fst src) (snd src) = Inr (Some (Piece col k))) \<longleftrightarrow>
         straight_attack b r c col = Inr True \<or> diagonal_attack b r c col = Inr True"
proof -
  have scanS: "straight_attack b r c col = Inr True \<longleftrightarrow>
      (\<exists>(dr, dc) \<in> set straight_deltas. \<exists>n. sees b col Rook r c dr dc n)"
    unfolding straight_attack_wf [OF wf] by simp
  have scanD: "diagonal_attack b r c col = Inr True \<longleftrightarrow>
      (\<exists>(dr, dc) \<in> set diagonal_deltas. \<exists>n. sees b col Bishop r c dr dc n)"
    unfolding diagonal_attack_wf [OF wf] by simp
  have found: "\<exists>src k. (src, (r, c)) \<in> set ps \<and> (k = Rook \<or> k = Bishop \<or> k = Queen) \<and>
              cell b (fst src) (snd src) = Inr (Some (Piece col k))"
    if d: "(dr, dc) \<in> set ds" and ds: "ds = straight_deltas \<and> k0 = Rook \<or>
        ds = diagonal_deltas \<and> k0 = Bishop"
      and s: "sees b col k0 r c dr dc n" for dr dc ds k0 n
  proof -
    define sr sc where "sr = r + int (Suc n) * dr" and "sc = c + int (Suc n) * dc"
    from s obtain q where src: "inside sr sc" and q: "piece_at b sr sc = Some q"
      "color q = col" "kind q = k0 \<or> kind q = Queen"
      unfolding sees_def sr_def sc_def by blast
    define k where "k = kind q"
    have pk: "piece_at b sr sc = Some (Piece col k)"
      using q by (cases q) (simp add: k_def)
    have k: "k = Rook \<or> k = Bishop \<or> k = Queen"
      using q(3) ds unfolding k_def by auto
    have neg: "(- dr, - dc) \<in> set (slide_deltas k)"
      using q(3) ds d straight_deltas_neg [of dr dc] diagonal_deltas_neg [of dr dc]
      unfolding k_def [symmetric] by (auto simp: slide_deltas_def)
    from sees_imp_target [OF ins free s]
    have "target b col (sr + - dr) (sc + - dc) (- dr) (- dc) n \<and>
         (r, c) = (sr + - dr + int n * - dr, sc + - dc + int n * - dc)"
      unfolding sr_def sc_def .
    with neg have "((sr, sc), (r, c)) \<in> set ps"
      unfolding slider_gen [OF wf ps src pk k]
      by (intro bexI [of _ "(- dr, - dc)"]) auto
    moreover have "cell b sr sc = Inr (Some (Piece col k))"
      using pk by (simp add: cell_inside [OF wf src])
    ultimately show ?thesis
      using k by (intro exI [of _ "(sr, sc)"] exI [of _ k]) simp
  qed
  show ?thesis
    unfolding scanS scanD
  proof
    assume "\<exists>src k. (src, (r, c)) \<in> set ps \<and> (k = Rook \<or> k = Bishop \<or> k = Queen) \<and>
              cell b (fst src) (snd src) = Inr (Some (Piece col k))"
    then obtain sr sc k where m: "((sr, sc), (r, c)) \<in> set ps"
      and k: "k = Rook \<or> k = Bishop \<or> k = Queen"
      and "cell b sr sc = Inr (Some (Piece col k))" by auto
    then have src: "inside sr sc" "piece_at b sr sc = Some (Piece col k)"
      by (simp_all add: cell_eq_Inr [OF wf])
    from m obtain dr dc n where d: "(dr, dc) \<in> set (slide_deltas k)"
      and t: "target b col (sr + dr) (sc + dc) dr dc n"
      and at: "(r, c) = (sr + dr + int n * dr, sc + dc + int n * dc)"
      unfolding slider_gen [OF wf ps src k] by auto
    from d k consider
        (straight) "(dr, dc) \<in> set straight_deltas" "k = Rook \<or> k = Queen"
      | (diagonal) "(dr, dc) \<in> set diagonal_deltas" "k = Bishop \<or> k = Queen"
      by (auto simp: slide_deltas_def)
    then show "(\<exists>(dr, dc) \<in> set straight_deltas. \<exists>n. sees b col Rook r c dr dc n) \<or>
               (\<exists>(dr, dc) \<in> set diagonal_deltas. \<exists>n. sees b col Bishop r c dr dc n)"
    proof cases
      case straight
      from straight(2) have "kind (Piece col k) = Rook \<or> kind (Piece col k) = Queen" by simp
      from target_imp_sees [OF src(1,2) _ this t at]
      have "sees b col Rook r c (- dr) (- dc) n" by simp
      with straight_deltas_neg [OF straight(1)]
      have "\<exists>(dr, dc) \<in> set straight_deltas. \<exists>n. sees b col Rook r c dr dc n"
        by (intro bexI [of _ "(- dr, - dc)"]) auto
      then show ?thesis ..
    next
      case diagonal
      from diagonal(2) have "kind (Piece col k) = Bishop \<or> kind (Piece col k) = Queen" by simp
      from target_imp_sees [OF src(1,2) _ this t at]
      have "sees b col Bishop r c (- dr) (- dc) n" by simp
      with diagonal_deltas_neg [OF diagonal(1)]
      have "\<exists>(dr, dc) \<in> set diagonal_deltas. \<exists>n. sees b col Bishop r c dr dc n"
        by (intro bexI [of _ "(- dr, - dc)"]) auto
      then show ?thesis ..
    qed
  next
    assume "(\<exists>(dr, dc) \<in> set straight_deltas. \<exists>n. sees b col Rook r c dr dc n) \<or>
               (\<exists>(dr, dc) \<in> set diagonal_deltas. \<exists>n. sees b col Bishop r c dr dc n)"
    then show "\<exists>src k. (src, (r, c)) \<in> set ps \<and> (k = Rook \<or> k = Bishop \<or> k = Queen) \<and>
              cell b (fst src) (snd src) = Inr (Some (Piece col k))"
    proof
      assume "\<exists>(dr, dc) \<in> set straight_deltas. \<exists>n. sees b col Rook r c dr dc n"
      then obtain dr dc n where "(dr, dc) \<in> set straight_deltas" "sees b col Rook r c dr dc n"
        by auto
      then show ?thesis by (intro found [of dr dc straight_deltas Rook n]) simp_all
    next
      assume "\<exists>(dr, dc) \<in> set diagonal_deltas. \<exists>n. sees b col Bishop r c dr dc n"
      then obtain dr dc n where "(dr, dc) \<in> set diagonal_deltas" "sees b col Bishop r c dr dc n"
        by auto
      then show ?thesis by (intro found [of dr dc diagonal_deltas Bishop n]) simp_all
    qed
  qed
qed

section \<open>Agreement of the attack scans with generation\<close>

text \<open>
  C1, as stated: a piece has a pseudo-legal capture onto a square exactly when
  \<open>is_square_attacked\<close> reports the square as attacked by the piece's colour. On the board
  below the black knight of \<open>(1, 1)\<close> stands next to the white king, so the king scan of
  \<open>is_square_attacked\<close> reports \<open>(1, 1)\<close> as attacked by White; but the knight is guarded by
  the rook, \<open>king_moves\<close> leaves the capture out, and no white move goes to \<open>(1, 1)\<close>.
\<close>

theorem attacked_square_without_capture:
  "cell guarded_knight_board 1 1 = Inr (Some (Piece Black Knight)) \<and>
   king_attack guarded_knight_board 1 1 White = Inr True \<and>
   is_square_attacked guarded_knight_board 1 1 White = Inr True \<and>
   generate_pseudo_legal_moves guarded_knight_board White =
     Inr [((0, 0), (0, 1)), ((0, 0), (1, 0))]"
  by code_simp

text \<open>
  C1, amended: let the square \<open>(r, c)\<close> hold a piece of the colour other than \<open>col\<close>. Then
  \<open>is_square_attacked\<close> for \<open>col\<close> is the disjunction of its five scans, and
  \<^item> the knight scan reports exactly when a knight of \<open>col\<close> has a pseudo-legal move onto
    \<open>(r, c)\<close>;
  \<^item> the straight or the diagonal scan reports exactly when a rook, bishop or queen of
    \<open>col\<close> has one;
  \<^item> a king of \<open>col\<close> has one exactly when the king scan reports and \<open>is_square_attacked\<close>
    for the opponent of \<open>col\<close> is \<open>False\<close> on \<open>(r, c)\<close>.
  Nothing is said about the pawn scan.
\<close>

theorem attack_scans_agree_with_generation:
  assumes wf: "wf_board b" and ps: "generate_pseudo_legal_moves b col = Inr ps"
    and occ: "cell b r c = Inr (Some q)" and opp: "color q \<noteq> col"
  shows "\<exists>kn pw kg st dg.
      knight_attack b r c col = Inr kn \<and> pawn_attack b r c col = Inr pw \<and>
      king_attack b r c col = Inr kg \<and> straight_attack b r c col = Inr st \<and>
      diagonal_attack b r c col = Inr dg \<and>
      is_square_attacked b r c col = Inr (kn \<or> pw \<or> kg \<or> st \<or> dg) \<and>
      (kn \<longleftrightarrow> (\<exists>src. (src, (r, c)) \<in> set ps \<and>
                 cell b (fst src) (snd src) = Inr (Some (Piece col Knight)))) \<and>
      (st \<or> dg \<longleftrightarrow>
         (\<exists>src k. (src, (r, c)) \<in> set ps \<and> (k = Rook \<or> k = Bishop \<or> k = Queen) \<and>
                 cell b (fst src) (snd src) = Inr (Some (Piece col k)))) \<and>
      (kg \<and> is_square_attacked b r c (opponent col) = Inr False \<longleftrightarrow>
         (\<exists>src. (src, (r, c)) \<in> set ps \<and>
                 cell b (fst src) (snd src) = Inr (Some (Piece col King))))"
proof -
  from occ have ins: "inside r c" and at: "piece_at b r c = Some q"
    by (simp_all add: cell_eq_Inr [OF wf])
  from at opp have free: "empty_or_enemy (piece_at b r c) col"
    by (simp add: empty_or_enemy_def)
  obtain kn where kn: "knight_attack b r c col = Inr kn"
    using knight_attack_wf [OF wf] by blast
  obtain pw where pw: "pawn_attack b r c col = Inr pw"
    using pawn_attack_wf [OF wf] by blast
  obtain kg where kg: "king_attack b r c col = Inr kg"
    using king_attack_wf [OF wf] by blast
  obtain st where st: "straight_attack b r c col = Inr st"
    using straight_attack_wf [OF wf] by blast
  obtain dg where dg: "diagonal_attack b r c col = Inr dg"
    using diagonal_attack_wf [OF wf] by blast
  have all: "is_square_attacked b r c col = Inr (kn \<or> pw \<or> kg \<or> st \<or> dg)"
    by (rule is_square_attacked_parts [OF kn pw kg st dg])
  have knights: "kn \<longleftrightarrow> (\<exists>src. (src, (r, c)) \<in> set ps \<and>
                 cell b (fst src) (snd src) = Inr (Some (Piece col Knight)))"
    unfolding knight_capture_iff [OF wf ps ins free] kn by simp
  have sliders: "st \<or> dg \<longleftrightarrow>
         (\<exists>src k. (src, (r, c)) \<in> set ps \<and> (k = Rook \<or> k = Bishop \<or> k = Queen) \<and>
                 cell b (fst src) (snd src) = Inr (Some (Piece col k)))"
    unfolding slider_capture_iff [OF wf ps ins free] st dg by simp
  have kings: "kg \<and> is_square_attacked b r c (opponent col) = Inr False \<longleftrightarrow>
         (\<exists>src. (src, (r, c)) \<in> set ps \<and>
                 cell b (fst src) (snd src) = Inr (Some (Piece col King)))"
    unfolding king_capture_iff [OF wf ps ins free] kg by simp
  from kn pw kg st dg all knights sliders kings show ?thesis by blast
qed

theorem attack_scans_agree_with_generation_witness:
  "wf_board rays_board \<and>
   generate_pseudo_legal_moves rays_board White =
     Inr [((4, 4), (3, 4)), ((4, 4), (2, 4)),
          ((4, 4), (5, 4)), ((4, 4), (6, 4)), ((4, 4), (7, 4)),
          ((4, 4), (4, 3)), ((4, 4), (4, 2)), ((4, 4), (4, 1)), ((4, 4), (4, 0)),
          ((4, 4), (4, 5)), ((4, 6), (3, 6))] \<and>
   cell rays_board 2 4 = Inr (Some (Piece Black Pawn)) \<and>
   color (Piece Black Pawn) \<noteq> White \<and>
   straight_attack rays_board 2 4 White = Inr True \<and>
   is_square_attacked rays_board 2 4 White = Inr True \<and>
   (\<exists>ps src k. generate_pseudo_legal_moves rays_board White = Inr ps \<and>
        (src, (2, 4)) \<in> set ps \<and> (k = Rook \<or> k = Bishop \<or> k = Queen) \<and>
        cell rays_board (fst src) (snd src) = Inr (Some (Piece White k)))"
proof -
  define ps :: "move list" where
    "ps = [((4, 4), (3, 4)), ((4, 4), (2, 4)),
          ((4, 4), (5, 4)), ((4, 4), (6, 4)), ((4, 4), (7, 4)),
          ((4, 4), (4, 3)), ((4, 4), (4, 2)), ((4, 4), (4, 1)), ((4, 4), (4, 0)),
          ((4, 4), (4, 5)), ((4, 6), (3, 6))]"
  have wf: "wf_board rays_board" by code_simp
  have ps: "generate_pseudo_legal_moves rays_board White = Inr ps"
    unfolding ps_def by code_simp
  have occ: "cell rays_board 2 4 = Inr (Some (Piece Black Pawn))" by code_simp
  have opp: "color (Piece Black Pawn) \<noteq> White" by simp
  have st: "straight_attack rays_board 2 4 White = Inr True" by code_simp
  from attack_scans_agree_with_generation [OF wf ps occ opp]
  obtain kn pw kg st' dg where
    st': "straight_attack rays_board 2 4 White = Inr st'"
    and all: "is_square_attacked rays_board 2 4 White = Inr (kn \<or> pw \<or> kg \<or> st' \<or> dg)"
    and sliders: "st' \<or> dg \<longleftrightarrow>
         (\<exists>src k. (src, (2, 4)) \<in> set ps \<and> (k = Rook \<or> k = Bishop \<or> k = Queen) \<and>
                 cell rays_board (fst src) (snd src) = Inr (Some (Piece White k)))"
    by blast
  from st st' have "st'" by simp
  with all have att: "is_square_attacked rays_board 2 4 White = Inr True" by simp
  from \<open>st'\<close> sliders
  have "\<exists>src k. (src, (2, 4)) \<in> set ps \<and> (k = Rook \<or> k = Bishop \<or> k = Queen) \<and>
                 cell rays_board (fst src) (snd src) = Inr (Some (Piece White k))"
    by simp
  with ps have "\<exists>ps src k. generate_pseudo_legal_moves rays_board White = Inr ps \<and>
        (src, (2, 4)) \<in> set ps \<and> (k = Rook \<or> k = Bishop \<or> k = Queen) \<and>
        cell rays_board (fst src) (snd src) = Inr (Some (Piece White k))"
    by blast
  with wf ps [unfolded ps_def] occ opp st att show ?thesis by blast
qed

section \<open>The pawn scan\<close>

text \<open>
  C2: the pawn scan of \<open>is_square_attacked\<close> looks on row \<open>r + dir\<close>, the row a pawn of the
  attacking colour moves to, where the pawns that capture onto \<open>(r, c)\<close> stand on row
  \<open>r - dir\<close>. The white pawn of \<open>(5, 3)\<close> has the capture onto the black king of \<open>(4, 2)\<close>, yet
  \<open>(4, 2)\<close> is not reported as attacked by White and Black is not reported in check; and
  \<open>(6, 2)\<close>, a square behind that pawn, is reported as attacked by White.
\<close>

theorem pawn_scan_looks_behind_the_pawn:
  "pawn_moves pawn_check_board 5 3 White = Inr [((5, 3), (4, 3)), ((5, 3), (4, 2))] \<and>
   pawn_attack pawn_check_board 4 2 White = Inr False \<and>
   is_square_attacked pawn_check_board 4 2 White = Inr False \<and>
   is_in_check pawn_check_board Black = Inr False \<and>
   pawn_attack pawn_check_board 6 2 White = Inr True \<and>
   is_square_attacked pawn_check_board 6 2 White = Inr True"
  by code_simp

section \<open>The starting position\<close>

text \<open>
  C3: on the board that \<^verbatim>\<open>Board()\<close> builds, \<open>generate_legal_moves\<close> for White returns
  exactly 20 moves: for each of the eight pawns of row 6 its single and its double step,
  then the two moves of each knight.
\<close>

theorem start_position_legal_moves_white:
  "let ms = concat (map (\<lambda>c. [((6, c), (5, c)), ((6, c), (4, c))]) [0..7]) @
            [((7, 1), (5, 0)), ((7, 1), (5, 2)), ((7, 6), (5, 5)), ((7, 6), (5, 7))]
   in fbind new_board (\<lambda>b. generate_legal_moves b White) = Inr ms \<and> length ms = 20"
  by code_simp

end
